theory Spec2Isabelle
  imports Main "HOL-Library.Word" "HOL-Library.Multiset" "HOL-Library.Monad_Syntax"
begin

unbundle bit_operations_syntax

declare Option.bind_cong [fundef_cong]

section \<open>Data model of \<^verbatim>\<open>src/celmodel/mesh.cpp\<close>\<close>

text \<open>
  Machine types. \<^verbatim>\<open>unsigned int\<close> and \<^verbatim>\<open>index32\<close> are 32-bit words, so that
  \<open>+\<close> and \<open>-\<close> wrap as they do in C++. A \<^verbatim>\<open>std::vector\<close>'s \<^verbatim>\<open>size()\<close> is the
  length of a list; where the code stores it in an \<^verbatim>\<open>unsigned int\<close> the conversion
  \<open>of_nat\<close> (reduction modulo \<open>2 ^ 32\<close>) is written out. Raw vertex storage is a list
  of bytes.
\<close>

type_synonym uint = "32 word"
type_synonym index32 = "32 word"
type_synonym byte = "8 word"

text \<open>
  Modelled from the spec: the header \<^verbatim>\<open>mesh.h\<close> (the enumerations, the fields of
  \<^verbatim>\<open>VertexAttribute\<close>, \<^verbatim>\<open>VertexDescription\<close>, \<^verbatim>\<open>PrimitiveGroup\<close> and \<^verbatim>\<open>Mesh\<close>,
  \<^verbatim>\<open>getFormatSize\<close> and \<^verbatim>\<open>getAttribute\<close>) is not among the sources. The semantics
  and formats are the ones the data model of the spec lists, with the sentinel values a
  default-constructed attribute carries; the topologies are the cases of the \<^verbatim>\<open>switch\<close>
  in \<^verbatim>\<open>PrimitiveGroup::getPrimitiveCount\<close>.
\<close>

datatype VertexAttributeSemantic =
  Position | Normal | Color | TexCoord | PointSize | NextPosition | ScaleFactor
  | InvalidSemantic

datatype VertexAttributeFormat =
  Float1 | Float2 | Float3 | Float4 | UByte4 | InvalidFormat

datatype PrimitiveGroupType =
  TriList | TriStrip | TriFan | LineList | LineStrip | PointList | SpriteList
  | InvalidPrimitiveGroupType

record VertexAttribute =
  semantic :: VertexAttributeSemantic
  format :: VertexAttributeFormat
  offset :: uint

text \<open>
  Modelled from the spec: the default-constructed attribute is the sentinel "absent"
  field that a lookup returns when no field is registered for a semantic.
\<close>

definition VertexAttribute_default :: VertexAttribute where
  "VertexAttribute_default =
     \<lparr>semantic = InvalidSemantic, format = InvalidFormat, offset = 0\<rparr>"

text \<open>
  Modelled from the spec: \<^verbatim>\<open>VertexAttribute::getFormatSize\<close> is declared in the absent
  header. Each format has a fixed byte size: \<open>n\<close> floats of four bytes, four unsigned
  bytes, and nothing for the sentinel.
\<close>

fun getFormatSize :: "VertexAttributeFormat \<Rightarrow> uint" where
  "getFormatSize Float1 = 4"
| "getFormatSize Float2 = 8"
| "getFormatSize Float3 = 12"
| "getFormatSize Float4 = 16"
| "getFormatSize UByte4 = 4"
| "getFormatSize InvalidFormat = 0"

record VertexDescription =
  stride :: uint
  attributes :: "VertexAttribute list"
  semanticMap :: "VertexAttributeSemantic \<Rightarrow> VertexAttribute"

record PrimitiveGroup =
  prim :: PrimitiveGroupType
  materialIndex :: uint
  indices :: "index32 list"
  primOverride :: PrimitiveGroupType
  vertexOverride :: "byte list option"
  vertexCountOverride :: uint
  indicesOverride :: "index32 list"
  vertexDescriptionOverride :: VertexDescription

text \<open>
  The mesh owns its groups: the vector of \<^verbatim>\<open>PrimitiveGroup*\<close> is a list of group
  values, in the order of the vector. A null \<^verbatim>\<open>vertexOverride\<close> is \<open>None\<close>.
\<close>

record Mesh =
  vertexDesc :: VertexDescription
  nVertices :: uint
  vertices :: "byte list"
  groups :: "PrimitiveGroup list"
  name :: string

text \<open>
  Undefined behaviour of the C++ (an element access outside a vector, an access outside
  a vertex buffer, signed overflow of an \<^verbatim>\<open>int\<close>) and a failed allocation are the value
  \<open>None\<close> of the model: a function that can run into one returns an \<open>option\<close>.
\<close>

text \<open>\<^verbatim>\<open>std::vector::operator[]\<close>.\<close>

definition vec_at :: "'a list \<Rightarrow> int \<Rightarrow> 'a option" where
  "vec_at xs i = (if 0 \<le> i \<and> i < int (length xs) then Some (xs ! nat i) else None)"

text \<open>The value of an \<^verbatim>\<open>int\<close> expression: defined when it is representable in 32 bits.\<close>

definition c_int :: "int \<Rightarrow> int option" where
  "c_int x = (if - (2 ^ 31) \<le> x \<and> x < 2 ^ 31 then Some x else None)"

section \<open>Raw vertex memory\<close>

text \<open>
  A \<^verbatim>\<open>float\<close> is its IEEE-754 bit pattern, stored in four bytes, least significant
  byte first. \<^verbatim>\<open>-0.5f\<close> is \<open>0xBF000000\<close> and \<^verbatim>\<open>0.5f\<close> is \<open>0x3F000000\<close>. Floating-point
  arithmetic is not modelled: the functions that compute with floats take the operations
  as parameters.
\<close>

type_synonym f32 = "32 word"
type_synonym vec3 = "f32 \<times> f32 \<times> f32"

definition f32_bytes :: "f32 \<Rightarrow> byte list" where
  "f32_bytes w = [ucast w, ucast (drop_bit 8 w), ucast (drop_bit 16 w), ucast (drop_bit 24 w)]"

definition bytes_f32 :: "byte list \<Rightarrow> f32" where
  "bytes_f32 bs =
     (case bs of
        [a, b, c, d] \<Rightarrow>
          ucast a OR push_bit 8 (ucast b) OR push_bit 16 (ucast c) OR push_bit 24 (ucast d)
      | _ \<Rightarrow> 0)"

definition minus_half :: f32 where
  "minus_half = 0xBF000000"

definition plus_half :: f32 where
  "plus_half = 0x3F000000"

text \<open>
  Reading \<open>n\<close> bytes at byte offset \<open>off\<close> of a buffer (\<^verbatim>\<open>memcpy\<close> from it, or a
  dereference), and writing bytes at an offset. Offsets are signed, as the pointer
  arithmetic of the code is done with \<^verbatim>\<open>int\<close> offsets in places.
\<close>

definition memread :: "byte list \<Rightarrow> int \<Rightarrow> int \<Rightarrow> byte list option" where
  "memread buf off n =
     (if 0 \<le> off \<and> 0 \<le> n \<and> off + n \<le> int (length buf)
      then Some (take (nat n) (drop (nat off) buf))
      else None)"

definition memwrite :: "byte list \<Rightarrow> int \<Rightarrow> byte list \<Rightarrow> byte list option" where
  "memwrite buf off bs =
     (if 0 \<le> off \<and> off + int (length bs) \<le> int (length buf)
      then Some (take (nat off) buf @ bs @ drop (nat off + length bs) buf)
      else None)"

definition read_float :: "byte list \<Rightarrow> int \<Rightarrow> f32 option" where
  "read_float buf off = map_option bytes_f32 (memread buf off 4)"

definition write_float :: "byte list \<Rightarrow> int \<Rightarrow> f32 \<Rightarrow> byte list option" where
  "write_float buf off x = memwrite buf off (f32_bytes x)"

text \<open>\<^verbatim>\<open>Eigen::Map<Eigen::Vector3f>\<close> at an address: three consecutive floats.\<close>

definition read_vec3 :: "byte list \<Rightarrow> int \<Rightarrow> vec3 option" where
  "read_vec3 buf off =
     do {
       x \<leftarrow> read_float buf off;
       y \<leftarrow> read_float buf (off + 4);
       z \<leftarrow> read_float buf (off + 8);
       Some (x, y, z)
     }"

definition write_vec3 :: "byte list \<Rightarrow> int \<Rightarrow> vec3 \<Rightarrow> byte list option" where
  "write_vec3 buf off v =
     (case v of
        (x, y, z) \<Rightarrow>
          do {
            b1 \<leftarrow> write_float buf off x;
            b2 \<leftarrow> write_float b1 (off + 4) y;
            write_float b2 (off + 8) z
          })"

section \<open>Vertex descriptions\<close>

text \<open>\<^verbatim>\<open>VertexDescription::buildSemanticMap\<close>: a later field of a semantic overwrites an earlier one.\<close>

definition buildSemanticMap :: "VertexDescription \<Rightarrow> VertexDescription" where
  "buildSemanticMap d =
     d\<lparr>semanticMap := foldl (\<lambda>m a. m(semantic a := a)) (semanticMap d) (attributes d)\<rparr>"

text \<open>\<^verbatim>\<open>VertexDescription::clearSemanticMap\<close>.\<close>

definition clearSemanticMap :: "VertexDescription \<Rightarrow> VertexDescription" where
  "clearSemanticMap d = d\<lparr>semanticMap := (\<lambda>s. VertexAttribute_default)\<rparr>"

text \<open>The constructor \<^verbatim>\<open>VertexDescription(stride, attributes)\<close>.\<close>

definition VertexDescription_new :: "uint \<Rightarrow> VertexAttribute list \<Rightarrow> VertexDescription" where
  "VertexDescription_new s as =
     (let d = \<lparr>stride = s, attributes = as, semanticMap = (\<lambda>s. VertexAttribute_default)\<rparr>
      in if as \<noteq> [] then buildSemanticMap d else d)"

text \<open>
  Modelled from the spec: \<^verbatim>\<open>VertexDescription::getAttribute\<close> (absent header) is the
  lookup in the semantic map.
\<close>

definition getAttribute :: "VertexDescription \<Rightarrow> VertexAttributeSemantic \<Rightarrow> VertexAttribute" where
  "getAttribute d s = semanticMap d s"

text \<open>
  \<^verbatim>\<open>VertexDescription::validate\<close>: the loop returns \<^verbatim>\<open>false\<close> at the first field that
  is misaligned or does not fit; the sum \<^verbatim>\<open>attr.offset + getFormatSize(attr.format)\<close> is
  an \<^verbatim>\<open>unsigned int\<close> sum.
\<close>

fun validate_loop :: "uint \<Rightarrow> VertexAttribute list \<Rightarrow> bool" where
  "validate_loop s [] = True"
| "validate_loop s (attr # rest) =
     (if offset attr mod 4 \<noteq> 0 \<or> offset attr + getFormatSize (format attr) > s
      then False
      else validate_loop s rest)"

definition validate :: "VertexDescription \<Rightarrow> bool" where
  "validate d = validate_loop (stride d) (attributes d)"

text \<open>\<^verbatim>\<open>appendingAttributes(desc, begin, end)\<close>: the loop over the new fields carries \<^verbatim>\<open>newStride\<close>.\<close>

fun appending_loop ::
  "VertexAttribute list \<Rightarrow> uint \<Rightarrow> VertexAttribute list \<Rightarrow> VertexAttribute list \<times> uint" where
  "appending_loop allAttributes newStride [] = (allAttributes, newStride)"
| "appending_loop allAttributes newStride (it # rest) =
     appending_loop (allAttributes @ [it]) (newStride + getFormatSize (format it)) rest"

definition appendingAttributes :: "VertexDescription \<Rightarrow> VertexAttribute list \<Rightarrow> VertexDescription" where
  "appendingAttributes desc new =
     (case appending_loop (attributes desc) (stride desc) new of
        (allAttributes, newStride) \<Rightarrow> VertexDescription_new newStride allAttributes)"

section \<open>Primitive groups\<close>

text \<open>
  Modelled from the spec: \<^verbatim>\<open>new PrimitiveGroup()\<close>; the member initialisers are in the
  absent header. A plain batch has no override: a null override buffer, no override
  vertices or indices, and an empty override layout.
\<close>

definition PrimitiveGroup_new :: PrimitiveGroup where
  "PrimitiveGroup_new =
     \<lparr>prim = InvalidPrimitiveGroupType, materialIndex = 0, indices = [],
      primOverride = InvalidPrimitiveGroupType, vertexOverride = None,
      vertexCountOverride = 0, indicesOverride = [],
      vertexDescriptionOverride = VertexDescription_new 0 []\<rparr>"

text \<open>
  \<^verbatim>\<open>PrimitiveGroup::getPrimitiveCount\<close>. \<^verbatim>\<open>indices.size()\<close> is a \<^verbatim>\<open>size_t\<close>; the result
  is the value of the expression reduced to an \<^verbatim>\<open>unsigned int\<close>, so \<^verbatim>\<open>size() - 2\<close> is a
  subtraction modulo \<open>2 ^ 32\<close>.
\<close>

definition getPrimitiveCount :: "PrimitiveGroup \<Rightarrow> uint" where
  "getPrimitiveCount g =
     (case prim g of
        TriList \<Rightarrow> of_nat (length (indices g) div 3)
      | TriStrip \<Rightarrow> of_nat (length (indices g)) - 2
      | TriFan \<Rightarrow> of_nat (length (indices g)) - 2
      | LineList \<Rightarrow> of_nat (length (indices g) div 2)
      | LineStrip \<Rightarrow> of_nat (length (indices g)) - 2
      | PointList \<Rightarrow> of_nat (length (indices g))
      | SpriteList \<Rightarrow> of_nat (length (indices g))
      | InvalidPrimitiveGroupType \<Rightarrow> 0)"

section \<open>Mesh: layout and batch management\<close>

text \<open>\<^verbatim>\<open>Mesh::setVertexDescription\<close> returns the flag and the mesh after the call.\<close>

definition setVertexDescription :: "Mesh \<Rightarrow> VertexDescription \<Rightarrow> bool \<times> Mesh" where
  "setVertexDescription m desc =
     (if \<not> validate desc then (False, m) else (True, m\<lparr>vertexDesc := desc\<rparr>))"

text \<open>\<^verbatim>\<open>Mesh::getGroup(index)\<close>: \<open>None\<close> is the null pointer.\<close>

definition getGroup :: "Mesh \<Rightarrow> uint \<Rightarrow> PrimitiveGroup option" where
  "getGroup m index =
     (if unat index \<ge> length (groups m) then None else Some (groups m ! unat index))"

text \<open>\<^verbatim>\<open>Mesh::addGroup(PrimitiveGroup*)\<close> returns the new group count and the mesh.\<close>

definition addGroup :: "Mesh \<Rightarrow> PrimitiveGroup \<Rightarrow> uint \<times> Mesh" where
  "addGroup m g =
     (let m' = m\<lparr>groups := groups m @ [g]\<rparr> in (of_nat (length (groups m')), m'))"

text \<open>\<^verbatim>\<open>Mesh::getGroupCount\<close>.\<close>

definition getGroupCount :: "Mesh \<Rightarrow> uint" where
  "getGroupCount m = of_nat (length (groups m))"

text \<open>
  \<^verbatim>\<open>Mesh::remapIndices\<close>: the inner loop replaces each index by \<^verbatim>\<open>indexMap[index]\<close>; a
  lookup outside the map is undefined in C++ and \<open>None\<close> here.
\<close>

fun remap_loop :: "index32 list \<Rightarrow> index32 list \<Rightarrow> index32 list option" where
  "remap_loop indexMap [] = Some []"
| "remap_loop indexMap (index # rest) =
     do {
       index' \<leftarrow> vec_at indexMap (uint index);
       rest' \<leftarrow> remap_loop indexMap rest;
       Some (index' # rest')
     }"

fun remap_groups :: "index32 list \<Rightarrow> PrimitiveGroup list \<Rightarrow> PrimitiveGroup list option" where
  "remap_groups indexMap [] = Some []"
| "remap_groups indexMap (grp # rest) =
     do {
       is' \<leftarrow> remap_loop indexMap (indices grp);
       rest' \<leftarrow> remap_groups indexMap rest;
       Some (grp\<lparr>indices := is'\<rparr> # rest')
     }"

definition remapIndices :: "Mesh \<Rightarrow> index32 list \<Rightarrow> Mesh option" where
  "remapIndices m indexMap =
     do {
       gs \<leftarrow> remap_groups indexMap (groups m);
       Some (m\<lparr>groups := gs\<rparr>)
     }"

section \<open>Line expansion\<close>

text \<open>
  One output vertex of \<^verbatim>\<open>Mesh::createLinePrimitiveGroup\<close>: the three writes at \<^verbatim>\<open>ptr\<close>
  (the record at \<^verbatim>\<open>thisLoc\<close>, the position found in the record at \<^verbatim>\<open>otherLoc\<close>, the
  scale factor). They fill \<^verbatim>\<open>originalStride + positionSize + sizeof(float)\<close> bytes,
  which is the amount \<^verbatim>\<open>stride\<close> by which \<^verbatim>\<open>ptr\<close> then advances, so the output buffer
  is the concatenation of the output vertices in the order written.
\<close>

definition line_vertex ::
  "byte list \<Rightarrow> int \<Rightarrow> int \<Rightarrow> int \<Rightarrow> int \<Rightarrow> int \<Rightarrow> f32 \<Rightarrow> byte list option" where
  "line_vertex originalData originalStride positionOffset positionSize thisLoc otherLoc scale =
     do {
       rec \<leftarrow> memread originalData thisLoc originalStride;
       pos \<leftarrow> memread originalData (otherLoc + positionOffset) positionSize;
       Some (rec @ pos @ f32_bytes scale)
     }"

text \<open>The loop \<^verbatim>\<open>for (int i = 0; i < lineCount; ++i)\<close>, carrying the buffer and the new indices.\<close>

function line_loop ::
  "byte list \<Rightarrow> int \<Rightarrow> int \<Rightarrow> int \<Rightarrow> bool \<Rightarrow> index32 list \<Rightarrow> int \<Rightarrow>
     int \<Rightarrow> byte list \<Rightarrow> index32 list \<Rightarrow> (byte list \<times> index32 list) option" where
  "line_loop originalData originalStride positionOffset positionSize lineStrip is lineCount
       i data newIndices =
     (if i < lineCount then
        do {
          thisIndex \<leftarrow> vec_at is (if lineStrip then i else i * 2);
          nextIndex \<leftarrow> vec_at is (if lineStrip then i + 1 else i * 2 + 1);
          origThisVertLoc \<leftarrow> c_int (sint thisIndex * originalStride);
          origNextVertLoc \<leftarrow> c_int (sint nextIndex * originalStride);
          v0 \<leftarrow> line_vertex originalData originalStride positionOffset positionSize
                  origThisVertLoc origNextVertLoc minus_half;
          v1 \<leftarrow> line_vertex originalData originalStride positionOffset positionSize
                  origThisVertLoc origNextVertLoc plus_half;
          v2 \<leftarrow> line_vertex originalData originalStride positionOffset positionSize
                  origNextVertLoc origThisVertLoc minus_half;
          v3 \<leftarrow> line_vertex originalData originalStride positionOffset positionSize
                  origNextVertLoc origThisVertLoc plus_half;
          let newIndex = (of_int (4 * i) :: index32);
          line_loop originalData originalStride positionOffset positionSize lineStrip is
            lineCount (i + 1) (data @ v0 @ v1 @ v2 @ v3)
            (newIndices @
               [newIndex, newIndex + 1, newIndex + 2, newIndex + 2, newIndex + 3, newIndex])
        }
      else Some (data, newIndices))"
  by pat_completeness auto
termination
  by (relation "measure (\<lambda>(od, os, po, ps, ls, is, lineCount, i, d, ni). nat (lineCount - i))")
    auto

text \<open>
  \<^verbatim>\<open>Mesh::createLinePrimitiveGroup\<close>. The \<^verbatim>\<open>int\<close> variables are integers; \<^verbatim>\<open>lineCount\<close>
  is the \<^verbatim>\<open>size_t\<close> expression converted to \<^verbatim>\<open>int\<close>, so it is \<open>-1\<close> for a strip without
  indices. In \<^verbatim>\<open>originalStride + positionSize + sizeof(float)\<close> the first sum is an \<^verbatim>\<open>int\<close>
  sum and the second is done in \<^verbatim>\<open>size_t\<close> and converted back. The variable
  \<^verbatim>\<open>transformedVertCount\<close> is never used and is left out.
  \<^verbatim>\<open>new unsigned char[stride * lineVertexCount]\<close> fails for a negative size.
\<close>

definition createLinePrimitiveGroup :: "Mesh \<Rightarrow> bool \<Rightarrow> index32 list \<Rightarrow> PrimitiveGroup option" where
  "createLinePrimitiveGroup m lineStrip is =
     (let positionAttributes = getAttribute (vertexDesc m) Position;
          positionSize = sint (getFormatSize (format positionAttributes));
          positionOffset = sint (offset positionAttributes);
          originalStride = sint (stride (vertexDesc m));
          lineCount = (if lineStrip then sint (of_nat (length is) - 1 :: uint)
                       else sint (of_nat (length is div 2) :: uint))
      in do {
        recordSize \<leftarrow> c_int (originalStride + positionSize);
        let stride' = sint (of_int recordSize + 4 :: uint);
        lineIndexCount \<leftarrow> c_int (6 * lineCount);
        lineVertexCount \<leftarrow> c_int (4 * lineCount);
        dataSize \<leftarrow> c_int (stride' * lineVertexCount);
        (data, newIndices) \<leftarrow>
          (if dataSize < 0 then None
           else line_loop (vertices m) originalStride positionOffset positionSize lineStrip is
                  lineCount 0 [] []);
        let newAttributes =
          [\<lparr>semantic = NextPosition, format = format positionAttributes,
            offset = of_int originalStride\<rparr>,
           \<lparr>semantic = ScaleFactor, format = Float1,
            offset = of_int (originalStride + positionSize)\<rparr>];
        Some (PrimitiveGroup_new
               \<lparr>vertexOverride := Some data,
                vertexCountOverride := of_int lineVertexCount,
                vertexDescriptionOverride := appendingAttributes (vertexDesc m) newAttributes,
                indicesOverride := newIndices,
                primOverride := TriList\<rparr>)
      })"

text \<open>\<^verbatim>\<open>Mesh::addGroup(prim, materialIndex, indices)\<close>.\<close>

definition addGroup_indices ::
  "Mesh \<Rightarrow> PrimitiveGroupType \<Rightarrow> uint \<Rightarrow> index32 list \<Rightarrow> (uint \<times> Mesh) option" where
  "addGroup_indices m primType material is =
     do {
       g \<leftarrow> (if primType = LineStrip \<or> primType = LineList
              then createLinePrimitiveGroup m (primType = LineStrip) is
              else Some (PrimitiveGroup_new\<lparr>primOverride := primType\<rparr>));
       Some (addGroup m (g\<lparr>indices := is, prim := primType, materialIndex := material\<rparr>))
     }"

section \<open>The output of line expansion, as the spec words it\<close>

text \<open>
  These definitions follow the description of the algorithm in the spec, to be compared
  with \<open>createLinePrimitiveGroup\<close>: the number of segments, the two ends of segment
  \<open>k\<close>, the original record of a vertex and the position inside it, an output vertex
  (the record of an end, the position of the other end, the scale), the four output
  vertices of a segment, and its six indices.
\<close>

definition line_count :: "bool \<Rightarrow> index32 list \<Rightarrow> nat" where
  "line_count lineStrip is = (if lineStrip then length is - 1 else length is div 2)"

definition segment_ends :: "bool \<Rightarrow> index32 list \<Rightarrow> nat \<Rightarrow> index32 \<times> index32" where
  "segment_ends lineStrip is k =
     (if lineStrip then (is ! k, is ! (k + 1)) else (is ! (2 * k), is ! (2 * k + 1)))"

definition vertex_record :: "Mesh \<Rightarrow> index32 \<Rightarrow> byte list" where
  "vertex_record m v =
     take (unat (stride (vertexDesc m)))
       (drop (unat v * unat (stride (vertexDesc m))) (vertices m))"

definition vertex_position :: "Mesh \<Rightarrow> index32 \<Rightarrow> byte list" where
  "vertex_position m v =
     take (unat (getFormatSize (format (getAttribute (vertexDesc m) Position))))
       (drop (unat v * unat (stride (vertexDesc m)) +
              unat (offset (getAttribute (vertexDesc m) Position)))
          (vertices m))"

definition expanded_vertex :: "Mesh \<Rightarrow> index32 \<Rightarrow> index32 \<Rightarrow> f32 \<Rightarrow> byte list" where
  "expanded_vertex m endpoint other scale =
     vertex_record m endpoint @ vertex_position m other @ f32_bytes scale"

definition expanded_segment :: "Mesh \<Rightarrow> bool \<Rightarrow> index32 list \<Rightarrow> nat \<Rightarrow> byte list" where
  "expanded_segment m lineStrip is k =
     (case segment_ends lineStrip is k of
        (thisEnd, otherEnd) \<Rightarrow>
          expanded_vertex m thisEnd otherEnd minus_half @
          expanded_vertex m thisEnd otherEnd plus_half @
          expanded_vertex m otherEnd thisEnd minus_half @
          expanded_vertex m otherEnd thisEnd plus_half)"

definition segment_triangles :: "nat \<Rightarrow> index32 list" where
  "segment_triangles k =
     (let base = of_nat (4 * k)
      in [base + 0, base + 1, base + 2, base + 2, base + 3, base + 0])"

section \<open>Sorting by material\<close>

text \<open>
  \<^verbatim>\<open>Mesh::aggregateByMaterial\<close> calls \<^verbatim>\<open>std::sort\<close> on the vector of groups with the
  comparison of material indices. \<^verbatim>\<open>std::sort\<close> belongs to the C++ library, not to the
  repository. The language standard fixes its result only so far: the range holds the
  elements it held before, and no element compares less than an element before it; the
  order of elements that compare equal is left to the library. What follows is the
  algorithm of the GNU C++ library (\<^verbatim>\<open>bits/stl_algo.h\<close> and \<^verbatim>\<open>bits/stl_heap.h\<close> of
  libstdc++), function by function under the names it has there without the leading
  underscores: an introsort that partitions ranges of more than 16 elements around the
  median of three, sorts a range by heap when the depth limit \<open>2 * lg n\<close> is used up, and
  finishes with an insertion sort. Iterators are positions in the list; reading or
  writing through an iterator outside the vector is the value \<open>None\<close>. Moving an element
  is copying it, as it is for the pointers the vector of groups holds. Distances between
  iterators and indices into a heap are natural numbers: every range the algorithm
  passes on has \<^verbatim>\<open>first <= last\<close> (so a loop \<^verbatim>\<open>for (i = ...; i != last; ++i)\<close> is a loop
  while \<open>i < last\<close>), and every heap operation is called with \<open>len \<ge> 1\<close>, where the
  quotients \<open>(len - 1) div 2\<close>, \<open>(len - 2) div 2\<close> and \<open>(holeIndex - 1) div 2\<close> of natural
  numbers are the truncating quotients of the signed distances of the library.
\<close>

text \<open>Dereferencing, assigning through and swapping through iterators.\<close>

definition elem_at :: "'a list \<Rightarrow> nat \<Rightarrow> 'a option" where
  "elem_at xs i = (if i < length xs then Some (xs ! i) else None)"

definition assign_at :: "'a list \<Rightarrow> nat \<Rightarrow> 'a \<Rightarrow> 'a list option" where
  "assign_at xs i v = (if i < length xs then Some (xs[i := v]) else None)"

definition iter_swap :: "'a list \<Rightarrow> nat \<Rightarrow> nat \<Rightarrow> 'a list option" where
  "iter_swap xs a b =
     do {
       x \<leftarrow> elem_at xs a;
       y \<leftarrow> elem_at xs b;
       xs' \<leftarrow> assign_at xs a y;
       assign_at xs' b x
     }"

definition cmp_at :: "('a \<Rightarrow> 'a \<Rightarrow> bool) \<Rightarrow> 'a list \<Rightarrow> nat \<Rightarrow> nat \<Rightarrow> bool option" where
  "cmp_at cmp xs a b =
     do {
       x \<leftarrow> elem_at xs a;
       y \<leftarrow> elem_at xs b;
       Some (cmp x y)
     }"

text \<open>\<^verbatim>\<open>std::move_backward(first, last, d_last)\<close>\<close>

definition move_backward :: "'a list \<Rightarrow> nat \<Rightarrow> nat \<Rightarrow> nat \<Rightarrow> 'a list option" where
  "move_backward xs first lst d_lst =
     (if first \<le> lst \<and> lst \<le> length xs \<and> lst - first \<le> d_lst \<and> d_lst \<le> length xs
      then Some (take (d_lst - (lst - first)) xs @ take (lst - first) (drop first xs) @
                 drop d_lst xs)
      else None)"

text \<open>\<^verbatim>\<open>__unguarded_linear_insert(last, comp)\<close>\<close>

fun linear_insert_loop :: "('a \<Rightarrow> 'a \<Rightarrow> bool) \<Rightarrow> 'a list \<Rightarrow> 'a \<Rightarrow> nat \<Rightarrow> 'a list option" where
  "linear_insert_loop cmp xs val 0 = None"
| "linear_insert_loop cmp xs val (Suc next) =
     do {
       x \<leftarrow> elem_at xs next;
       if cmp val x
       then do {
         xs' \<leftarrow> assign_at xs (Suc next) x;
         linear_insert_loop cmp xs' val next
       }
       else assign_at xs (Suc next) val
     }"

definition unguarded_linear_insert :: "('a \<Rightarrow> 'a \<Rightarrow> bool) \<Rightarrow> 'a list \<Rightarrow> nat \<Rightarrow> 'a list option" where
  "unguarded_linear_insert cmp xs lst =
     do {
       val \<leftarrow> elem_at xs lst;
       linear_insert_loop cmp xs val lst
     }"

text \<open>\<^verbatim>\<open>__insertion_sort(first, last, comp)\<close>\<close>

function insertion_loop ::
  "('a \<Rightarrow> 'a \<Rightarrow> bool) \<Rightarrow> 'a list \<Rightarrow> nat \<Rightarrow> nat \<Rightarrow> nat \<Rightarrow> 'a list option" where
  "insertion_loop cmp xs first i lst =
     (if i < lst
      then do {
        c \<leftarrow> cmp_at cmp xs i first;
        xs' \<leftarrow>
          (if c
           then do {
             val \<leftarrow> elem_at xs i;
             xs1 \<leftarrow> move_backward xs first i (i + 1);
             assign_at xs1 first val
           }
           else unguarded_linear_insert cmp xs i);
        insertion_loop cmp xs' first (i + 1) lst
      }
      else Some xs)"
  by pat_completeness auto
termination
  by (relation "measure (\<lambda>(cmp, xs, first, i, lst). lst - i)") auto

declare insertion_loop.simps [simp del]

definition insertion_sort :: "('a \<Rightarrow> 'a \<Rightarrow> bool) \<Rightarrow> 'a list \<Rightarrow> nat \<Rightarrow> nat \<Rightarrow> 'a list option" where
  "insertion_sort cmp xs first lst =
     (if first = lst then Some xs else insertion_loop cmp xs first (first + 1) lst)"

text \<open>\<^verbatim>\<open>__unguarded_insertion_sort(first, last, comp)\<close>\<close>

function unguarded_insertion_sort ::
  "('a \<Rightarrow> 'a \<Rightarrow> bool) \<Rightarrow> 'a list \<Rightarrow> nat \<Rightarrow> nat \<Rightarrow> 'a list option" where
  "unguarded_insertion_sort cmp xs i lst =
     (if i < lst
      then do {
        xs' \<leftarrow> unguarded_linear_insert cmp xs i;
        unguarded_insertion_sort cmp xs' (i + 1) lst
      }
      else Some xs)"
  by pat_completeness auto
termination
  by (relation "measure (\<lambda>(cmp, xs, i, lst). lst - i)") auto

declare unguarded_insertion_sort.simps [simp del]

text \<open>\<^verbatim>\<open>__final_insertion_sort(first, last, comp)\<close>, with \<^verbatim>\<open>_S_threshold = 16\<close>\<close>

definition final_insertion_sort ::
  "('a \<Rightarrow> 'a \<Rightarrow> bool) \<Rightarrow> 'a list \<Rightarrow> nat \<Rightarrow> nat \<Rightarrow> 'a list option" where
  "final_insertion_sort cmp xs first lst =
     (if lst - first > 16
      then do {
        xs' \<leftarrow> insertion_sort cmp xs first (first + 16);
        unguarded_insertion_sort cmp xs' (first + 16) lst
      }
      else insertion_sort cmp xs first lst)"

text \<open>\<^verbatim>\<open>__move_median_to_first(result, a, b, c, comp)\<close>\<close>

definition move_median_to_first ::
  "('a \<Rightarrow> 'a \<Rightarrow> bool) \<Rightarrow> 'a list \<Rightarrow> nat \<Rightarrow> nat \<Rightarrow> nat \<Rightarrow> nat \<Rightarrow> 'a list option" where
  "move_median_to_first cmp xs result a b c =
     do {
       ab \<leftarrow> cmp_at cmp xs a b;
       if ab
       then do {
         bc \<leftarrow> cmp_at cmp xs b c;
         if bc then iter_swap xs result b
         else do {
           ac \<leftarrow> cmp_at cmp xs a c;
           if ac then iter_swap xs result c else iter_swap xs result a
         }
       }
       else do {
         ac \<leftarrow> cmp_at cmp xs a c;
         if ac then iter_swap xs result a
         else do {
           bc \<leftarrow> cmp_at cmp xs b c;
           if bc then iter_swap xs result c else iter_swap xs result b
         }
       }
     }"

text \<open>\<^verbatim>\<open>__unguarded_partition(first, last, pivot, comp)\<close>\<close>

function scan_up :: "('a \<Rightarrow> 'a \<Rightarrow> bool) \<Rightarrow> 'a list \<Rightarrow> nat \<Rightarrow> nat \<Rightarrow> nat option" where
  "scan_up cmp xs first pivot =
     (if first < length xs
      then do {
        c \<leftarrow> cmp_at cmp xs first pivot;
        if c then scan_up cmp xs (first + 1) pivot else Some first
      }
      else None)"
  by pat_completeness auto
termination
  by (relation "measure (\<lambda>(cmp, xs, first, pivot). length xs - first)") auto

declare scan_up.simps [simp del]

fun scan_down :: "('a \<Rightarrow> 'a \<Rightarrow> bool) \<Rightarrow> 'a list \<Rightarrow> nat \<Rightarrow> nat \<Rightarrow> nat option" where
  "scan_down cmp xs pivot 0 =
     do {
       c \<leftarrow> cmp_at cmp xs pivot 0;
       if c then None else Some 0
     }"
| "scan_down cmp xs pivot (Suc lst) =
     do {
       c \<leftarrow> cmp_at cmp xs pivot (Suc lst);
       if c then scan_down cmp xs pivot lst else Some (Suc lst)
     }"

function unguarded_partition ::
  "('a \<Rightarrow> 'a \<Rightarrow> bool) \<Rightarrow> 'a list \<Rightarrow> nat \<Rightarrow> nat \<Rightarrow> nat \<Rightarrow> ('a list \<times> nat) option" where
  "unguarded_partition cmp xs first lst pivot =
     do {
       first' \<leftarrow> scan_up cmp xs first pivot;
       if lst = 0 then None
       else do {
         lst' \<leftarrow> scan_down cmp xs pivot (lst - 1);
         if \<not> first' < lst' then Some (xs, first')
         else do {
           xs' \<leftarrow> iter_swap xs first' lst';
           unguarded_partition cmp xs' (first' + 1) lst' pivot
         }
       }
     }"
  by pat_completeness auto
termination
proof (relation "measure (\<lambda>(cmp, xs, first, lst, pivot). lst)")
  show "wf (measure (\<lambda>(cmp, xs, first, lst, pivot). lst))"
    by simp
next
  fix cmp :: "'a \<Rightarrow> 'a \<Rightarrow> bool" and xs first lst pivot first' lst' xs'
  assume "lst \<noteq> 0" and down: "scan_down cmp xs pivot (lst - 1) = Some lst'"
  have "l \<le> k" if "scan_down cmp xs pivot k = Some l" for k l
    using that by (induction k) (auto split: Option.bind_splits if_splits)
  from this [OF down] \<open>lst \<noteq> 0\<close> have "lst' < lst"
    by simp
  then show "((cmp, xs', first' + 1, lst', pivot), (cmp, xs, first, lst, pivot))
      \<in> measure (\<lambda>(cmp, xs, first, lst, pivot). lst)"
    by simp
qed

declare unguarded_partition.simps [simp del]

text \<open>\<^verbatim>\<open>__unguarded_partition_pivot(first, last, comp)\<close>\<close>

definition unguarded_partition_pivot ::
  "('a \<Rightarrow> 'a \<Rightarrow> bool) \<Rightarrow> 'a list \<Rightarrow> nat \<Rightarrow> nat \<Rightarrow> ('a list \<times> nat) option" where
  "unguarded_partition_pivot cmp xs first lst =
     (let mid = first + (lst - first) div 2 in
      do {
        xs' \<leftarrow> move_median_to_first cmp xs first (first + 1) mid (lst - 1);
        unguarded_partition cmp xs' (first + 1) lst first
      })"

text \<open>\<^verbatim>\<open>__push_heap(first, holeIndex, topIndex, value, comp)\<close>\<close>

function push_heap ::
  "('a \<Rightarrow> 'a \<Rightarrow> bool) \<Rightarrow> 'a list \<Rightarrow> nat \<Rightarrow> nat \<Rightarrow> nat \<Rightarrow> 'a \<Rightarrow> 'a list option" where
  "push_heap cmp xs first holeIndex topIndex val =
     (let parent = (holeIndex - 1) div 2 in
      if holeIndex > topIndex
      then do {
        p \<leftarrow> elem_at xs (first + parent);
        if cmp p val
        then do {
          xs' \<leftarrow> assign_at xs (first + holeIndex) p;
          push_heap cmp xs' first parent topIndex val
        }
        else assign_at xs (first + holeIndex) val
      }
      else assign_at xs (first + holeIndex) val)"
  by pat_completeness auto
termination
  by (relation "measure (\<lambda>(cmp, xs, first, holeIndex, topIndex, val). holeIndex)") auto

declare push_heap.simps [simp del]

text \<open>\<^verbatim>\<open>__adjust_heap(first, holeIndex, len, value, comp)\<close>\<close>

function adjust_heap_loop ::
  "('a \<Rightarrow> 'a \<Rightarrow> bool) \<Rightarrow> 'a list \<Rightarrow> nat \<Rightarrow> nat \<Rightarrow> nat \<Rightarrow> ('a list \<times> nat) option" where
  "adjust_heap_loop cmp xs first secondChild len =
     (if secondChild < (len - 1) div 2
      then
        (let child = 2 * (secondChild + 1) in
         do {
           c \<leftarrow> cmp_at cmp xs (first + child) (first + (child - 1));
           let child' = (if c then child - 1 else child);
           x \<leftarrow> elem_at xs (first + child');
           xs' \<leftarrow> assign_at xs (first + secondChild) x;
           adjust_heap_loop cmp xs' first child' len
         })
      else Some (xs, secondChild))"
  by pat_completeness auto
termination
  by (relation "measure (\<lambda>(cmp, xs, first, secondChild, len). len - secondChild)") auto

declare adjust_heap_loop.simps [simp del]

definition adjust_heap ::
  "('a \<Rightarrow> 'a \<Rightarrow> bool) \<Rightarrow> 'a list \<Rightarrow> nat \<Rightarrow> nat \<Rightarrow> nat \<Rightarrow> 'a \<Rightarrow> 'a list option" where
  "adjust_heap cmp xs first holeIndex len val =
     do {
       (xs1, secondChild) \<leftarrow> adjust_heap_loop cmp xs first holeIndex len;
       (xs2, holeIndex') \<leftarrow>
         (if even len \<and> secondChild = (len - 2) div 2
          then
            (let child = 2 * (secondChild + 1) in
             do {
               x \<leftarrow> elem_at xs1 (first + (child - 1));
               xs' \<leftarrow> assign_at xs1 (first + secondChild) x;
               Some (xs', child - 1)
             })
          else Some (xs1, secondChild));
       push_heap cmp xs2 first holeIndex' holeIndex val
     }"

text \<open>\<^verbatim>\<open>__pop_heap(first, last, result, comp)\<close>\<close>

definition pop_heap ::
  "('a \<Rightarrow> 'a \<Rightarrow> bool) \<Rightarrow> 'a list \<Rightarrow> nat \<Rightarrow> nat \<Rightarrow> nat \<Rightarrow> 'a list option" where
  "pop_heap cmp xs first lst result =
     do {
       val \<leftarrow> elem_at xs result;
       x \<leftarrow> elem_at xs first;
       xs' \<leftarrow> assign_at xs result x;
       adjust_heap cmp xs' first 0 (lst - first) val
     }"

text \<open>\<^verbatim>\<open>__make_heap(first, last, comp)\<close>\<close>

fun make_heap_loop ::
  "('a \<Rightarrow> 'a \<Rightarrow> bool) \<Rightarrow> 'a list \<Rightarrow> nat \<Rightarrow> nat \<Rightarrow> nat \<Rightarrow> 'a list option" where
  "make_heap_loop cmp xs first len 0 =
     do {
       val \<leftarrow> elem_at xs first;
       adjust_heap cmp xs first 0 len val
     }"
| "make_heap_loop cmp xs first len (Suc parent) =
     do {
       val \<leftarrow> elem_at xs (first + Suc parent);
       xs' \<leftarrow> adjust_heap cmp xs first (Suc parent) len val;
       make_heap_loop cmp xs' first len parent
     }"

definition make_heap :: "('a \<Rightarrow> 'a \<Rightarrow> bool) \<Rightarrow> 'a list \<Rightarrow> nat \<Rightarrow> nat \<Rightarrow> 'a list option" where
  "make_heap cmp xs first lst =
     (if lst - first < 2 then Some xs
      else make_heap_loop cmp xs first (lst - first) ((lst - first - 2) div 2))"

text \<open>\<^verbatim>\<open>__heap_select(first, middle, last, comp)\<close>\<close>

function heap_select_loop ::
  "('a \<Rightarrow> 'a \<Rightarrow> bool) \<Rightarrow> 'a list \<Rightarrow> nat \<Rightarrow> nat \<Rightarrow> nat \<Rightarrow> nat \<Rightarrow> 'a list option" where
  "heap_select_loop cmp xs first middle i lst =
     (if i < lst
      then do {
        c \<leftarrow> cmp_at cmp xs i first;
        xs' \<leftarrow> (if c then pop_heap cmp xs first middle i else Some xs);
        heap_select_loop cmp xs' first middle (i + 1) lst
      }
      else Some xs)"
  by pat_completeness auto
termination
  by (relation "measure (\<lambda>(cmp, xs, first, middle, i, lst). lst - i)") auto

declare heap_select_loop.simps [simp del]

definition heap_select ::
  "('a \<Rightarrow> 'a \<Rightarrow> bool) \<Rightarrow> 'a list \<Rightarrow> nat \<Rightarrow> nat \<Rightarrow> nat \<Rightarrow> 'a list option" where
  "heap_select cmp xs first middle lst =
     do {
       xs' \<leftarrow> make_heap cmp xs first middle;
       heap_select_loop cmp xs' first middle middle lst
     }"

text \<open>\<^verbatim>\<open>__sort_heap(first, last, comp)\<close>\<close>

function sort_heap :: "('a \<Rightarrow> 'a \<Rightarrow> bool) \<Rightarrow> 'a list \<Rightarrow> nat \<Rightarrow> nat \<Rightarrow> 'a list option" where
  "sort_heap cmp xs first lst =
     (if lst - first > 1
      then do {
        xs' \<leftarrow> pop_heap cmp xs first (lst - 1) (lst - 1);
        sort_heap cmp xs' first (lst - 1)
      }
      else Some xs)"
  by pat_completeness auto
termination
  by (relation "measure (\<lambda>(cmp, xs, first, lst). lst - first)") auto

declare sort_heap.simps [simp del]

text \<open>\<^verbatim>\<open>__partial_sort(first, middle, last, comp)\<close>\<close>

definition partial_sort ::
  "('a \<Rightarrow> 'a \<Rightarrow> bool) \<Rightarrow> 'a list \<Rightarrow> nat \<Rightarrow> nat \<Rightarrow> nat \<Rightarrow> 'a list option" where
  "partial_sort cmp xs first middle lst =
     do {
       xs' \<leftarrow> heap_select cmp xs first middle lst;
       sort_heap cmp xs' first middle
     }"

text \<open>\<^verbatim>\<open>__introsort_loop(first, last, depth_limit, comp)\<close>\<close>

fun introsort_loop ::
  "('a \<Rightarrow> 'a \<Rightarrow> bool) \<Rightarrow> 'a list \<Rightarrow> nat \<Rightarrow> nat \<Rightarrow> nat \<Rightarrow> 'a list option" where
  "introsort_loop cmp xs first lst 0 =
     (if lst - first > 16 then partial_sort cmp xs first lst lst else Some xs)"
| "introsort_loop cmp xs first lst (Suc depth_limit) =
     (if lst - first > 16
      then do {
        (xs1, cut) \<leftarrow> unguarded_partition_pivot cmp xs first lst;
        xs2 \<leftarrow> introsort_loop cmp xs1 cut lst depth_limit;
        introsort_loop cmp xs2 first cut depth_limit
      }
      else Some xs)"

text \<open>\<^verbatim>\<open>__lg(n)\<close>\<close>

fun lg :: "nat \<Rightarrow> nat" where
  "lg n = (if n < 2 then 0 else Suc (lg (n div 2)))"

declare lg.simps [simp del]

text \<open>\<^verbatim>\<open>std::sort(first, last, comp)\<close> on the whole of a vector\<close>

definition std_sort :: "('a \<Rightarrow> 'a \<Rightarrow> bool) \<Rightarrow> 'a list \<Rightarrow> 'a list option" where
  "std_sort cmp xs =
     (if length xs = 0 then Some xs
      else do {
        xs' \<leftarrow> introsort_loop cmp xs 0 (length xs) (2 * lg (length xs));
        final_insertion_sort cmp xs' 0 (length xs)
      })"

text \<open>\<^verbatim>\<open>Mesh::aggregateByMaterial\<close>.\<close>

definition aggregateByMaterial :: "Mesh \<Rightarrow> Mesh option" where
  "aggregateByMaterial m =
     do {
       gs \<leftarrow> std_sort (\<lambda>g0 g1. materialIndex g0 < materialIndex g1) (groups m);
       Some (m\<lparr>groups := gs\<rparr>)
     }"

text \<open>
  Notions for the proof that this sort sorts. \<open>move_to xs k l\<close> is \<open>xs\<close> with the element
  at \<open>l\<close> moved down to position \<open>k\<close>, the elements between shifted up by one: the
  effect of one insertion. In the heap laid out from position \<open>b\<close>, the parent of node
  \<open>i > 0\<close> is node \<open>(i - 1) div 2\<close>; \<open>desc tp h\<close> says that node \<open>h\<close> is \<open>tp\<close> or lies below
  it, and \<open>heap_from key xs b len r\<close> that no node whose parent is \<open>r\<close> or a later node
  has a greater key than its parent.
\<close>

definition move_to :: "'a list \<Rightarrow> nat \<Rightarrow> nat \<Rightarrow> 'a list" where
  "move_to xs k l = take k xs @ xs ! l # take (l - k) (drop k xs) @ drop (Suc l) xs"

function desc :: "nat \<Rightarrow> nat \<Rightarrow> bool" where
  "desc tp h = (if h \<le> tp then h = tp else desc tp ((h - 1) div 2))"
  by pat_completeness auto
termination
  by (relation "measure (\<lambda>(tp, h). h)") auto

declare desc.simps [simp del]

definition heap_from :: "('a \<Rightarrow> 'k :: linorder) \<Rightarrow> 'a list \<Rightarrow> nat \<Rightarrow> nat \<Rightarrow> nat \<Rightarrow> bool" where
  "heap_from key xs b len r \<longleftrightarrow>
     (\<forall>i. 0 < i \<and> i < len \<and> r \<le> (i - 1) div 2 \<longrightarrow>
          key (xs ! (b + i)) \<le> key (xs ! (b + (i - 1) div 2)))"

text \<open>
  Stability of a reordering by material: the groups of each material index are in the
  same order in both lists.
\<close>

definition same_order_per_material :: "PrimitiveGroup list \<Rightarrow> PrimitiveGroup list \<Rightarrow> bool" where
  "same_order_per_material xs ys \<longleftrightarrow>
     list_all (\<lambda>k. filter (\<lambda>g. materialIndex g = k) ys = filter (\<lambda>g. materialIndex g = k) xs)
       (remdups (map materialIndex (xs @ ys)))"

section \<open>Ray picking\<close>

text \<open>
  The walk over the triangles of one group in \<^verbatim>\<open>Mesh::pick\<close>. The state of the
  \<^verbatim>\<open>do ... while\<close> loop is \<^verbatim>\<open>index\<close>, the three vertex indices \<^verbatim>\<open>i0, i1, i2\<close> and
  \<^verbatim>\<open>primitiveIndex\<close>, together with what the body computes (\<open>s\<close>). The body of the loop
  up to the comment "Get the indices for the next triangle" is the parameter \<open>examine\<close>;
  \<open>next_triangle\<close> is the rest of the body. The counters \<^verbatim>\<open>index\<close> and \<^verbatim>\<open>nIndices\<close> are
  natural numbers: they stay below the number of indices of the group plus three, and a
  group is taken to hold fewer than \<open>2 ^ 32 - 3\<close> indices, so no \<^verbatim>\<open>index32\<close> counter wraps.
\<close>

type_synonym triangle = "index32 \<times> index32 \<times> index32"

definition next_triangle ::
  "PrimitiveGroupType \<Rightarrow> index32 list \<Rightarrow> nat \<Rightarrow> triangle \<Rightarrow> (nat \<times> triangle) option" where
  "next_triangle primType is index t =
     (case t of
        (i0, i1, i2) \<Rightarrow>
          if primType = TriList then
            (let index = index + 3 in
             if index < length is then
               do {
                 j0 \<leftarrow> vec_at is (int index + 0);
                 j1 \<leftarrow> vec_at is (int index + 1);
                 j2 \<leftarrow> vec_at is (int index + 2);
                 Some (index, (j0, j1, j2))
               }
             else Some (index, (i0, i1, i2)))
          else if primType = TriStrip then
            (let index = index + 1 in
             if index < length is then
               do {
                 j2 \<leftarrow> vec_at is (int index);
                 Some (index, (i1, i2, j2))
               }
             else Some (index, (i0, i1, i2)))
          else
            (let index = index + 1 in
             if index < length is then
               (let index = index + 1 in
                do {
                  j2 \<leftarrow> vec_at is (int index);
                  Some (index, (i0, i2, j2))
                })
             else Some (index, (i0, i1, i2))))"

function walk_triangles ::
  "(uint \<Rightarrow> triangle \<Rightarrow> 's \<Rightarrow> 's option) \<Rightarrow> PrimitiveGroupType \<Rightarrow> index32 list \<Rightarrow>
     nat \<Rightarrow> triangle \<Rightarrow> uint \<Rightarrow> 's \<Rightarrow> 's option" where
  "walk_triangles examine primType is index t primitiveIndex s =
     do {
       s' \<leftarrow> examine primitiveIndex t s;
       (index', t') \<leftarrow> next_triangle primType is index t;
       if index' < length is
       then walk_triangles examine primType is index' t' (primitiveIndex + 1) s'
       else Some s'
     }"
  by pat_completeness auto
termination
proof (relation "measure (\<lambda>(ex, pt, is, index, t, pi, s). length is - index)")
  show "wf (measure (\<lambda>(ex, pt, is, index, t, pi, s). length is - index))"
    by simp
next
  fix examine :: "uint \<Rightarrow> triangle \<Rightarrow> 's \<Rightarrow> 's option"
    and primType "is" index t primitiveIndex s s' x index' t'
  assume nt: "next_triangle primType is index t = Some x" and x: "(index', t') = x"
    and lt: "index' < length is"
  from nt x have "index < index'"
    by (auto simp: next_triangle_def Let_def split: prod.splits if_splits
          dest!: bind_eq_Some_conv [THEN iffD1])
  with lt show "((examine, primType, is, index', t', primitiveIndex + 1, s'),
                 (examine, primType, is, index, t, primitiveIndex, s))
                \<in> measure (\<lambda>(ex, pt, is, index, t, pi, s). length is - index)"
    by simp
qed

text \<open>
  One group of the loop over the groups: the test that admits a group to the walk, and
  the reads of its first three indices.
\<close>

definition walk_group ::
  "(uint \<Rightarrow> triangle \<Rightarrow> 's \<Rightarrow> 's option) \<Rightarrow> PrimitiveGroup \<Rightarrow> 's \<Rightarrow> 's option" where
  "walk_group examine g s =
     (let primType = prim g; nIndices = length (indices g) in
      if (primType = TriList \<or> primType = TriStrip \<or> primType = TriFan) \<and>
         nIndices \<ge> 3 \<and>
         \<not> (primType = TriList \<and> nIndices mod 3 \<noteq> 0)
      then
        do {
          i0 \<leftarrow> vec_at (indices g) 0;
          i1 \<leftarrow> vec_at (indices g) 1;
          i2 \<leftarrow> vec_at (indices g) 2;
          walk_triangles examine primType (indices g) 0 (i0, i1, i2) 0 s
        }
      else Some s)"

text \<open>The triangles the walk examines in a group, in order: the walk with a body that records them.\<close>

definition triangles_examined :: "PrimitiveGroup \<Rightarrow> triangle list option" where
  "triangles_examined g = walk_group (\<lambda>primitiveIndex t acc. Some (acc @ [t])) g []"

record 'd PickResult =
  pickGroup :: PrimitiveGroup
  primitiveIndex :: uint
  distance :: 'd

text \<open>
  The body of the walk in \<^verbatim>\<open>Mesh::pick\<close>: the three positions are read at
  \<^verbatim>\<open>vdata + i * vertexDesc.stride + posOffset\<close>, where the product is an \<^verbatim>\<open>unsigned int\<close>
  product. The intersection test on them is floating-point geometry and a parameter:
  \<open>hitTest v0 v1 v2 closest\<close> is \<open>Some t\<close> when the triangle is hit at a distance \<open>t\<close>
  that the code accepts as the new closest one.
\<close>

definition pick_triangle ::
  "(vec3 \<Rightarrow> vec3 \<Rightarrow> vec3 \<Rightarrow> 'd \<Rightarrow> 'd option) \<Rightarrow> Mesh \<Rightarrow> PrimitiveGroup \<Rightarrow> uint \<Rightarrow> triangle \<Rightarrow>
     'd \<times> 'd PickResult option \<Rightarrow> ('d \<times> 'd PickResult option) option" where
  "pick_triangle hitTest m g primIndex t s =
     (case (t, s) of
        ((i0, i1, i2), (closest, result)) \<Rightarrow>
          let posOffset = offset (getAttribute (vertexDesc m) Position);
              st = stride (vertexDesc m)
          in do {
            v0 \<leftarrow> read_vec3 (vertices m) (uint (i0 * st) + uint posOffset);
            v1 \<leftarrow> read_vec3 (vertices m) (uint (i1 * st) + uint posOffset);
            v2 \<leftarrow> read_vec3 (vertices m) (uint (i2 * st) + uint posOffset);
            Some (case hitTest v0 v1 v2 closest of
                    None \<Rightarrow> (closest, result)
                  | Some d \<Rightarrow>
                      (d, map_option
                            (\<lambda>r. \<lparr>pickGroup = g, primitiveIndex = primIndex, distance = d\<rparr>)
                            result))
          })"

fun pick_groups ::
  "(vec3 \<Rightarrow> vec3 \<Rightarrow> vec3 \<Rightarrow> 'd \<Rightarrow> 'd option) \<Rightarrow> Mesh \<Rightarrow> PrimitiveGroup list \<Rightarrow>
     'd \<times> 'd PickResult option \<Rightarrow> ('d \<times> 'd PickResult option) option" where
  "pick_groups hitTest m [] s = Some s"
| "pick_groups hitTest m (g # rest) s =
     do {
       s' \<leftarrow> walk_group (pick_triangle hitTest m g) g s;
       pick_groups hitTest m rest s'
     }"

text \<open>
  \<^verbatim>\<open>Mesh::pick(rayOrigin, rayDirection, result)\<close>; the ray is part of \<open>hitTest\<close>. The
  result is the flag returned and the record behind the pointer \<^verbatim>\<open>result\<close> after the
  call (\<open>None\<close> for a null pointer).
\<close>

definition pick ::
  "(vec3 \<Rightarrow> vec3 \<Rightarrow> vec3 \<Rightarrow> 'd \<Rightarrow> 'd option) \<Rightarrow> 'd \<Rightarrow> Mesh \<Rightarrow> 'd PickResult option \<Rightarrow>
     (bool \<times> 'd PickResult option) option" where
  "pick hitTest maxDistance m result =
     (let closest = maxDistance in
      if semantic (getAttribute (vertexDesc m) Position) \<noteq> Position \<or>
         format (getAttribute (vertexDesc m) Position) \<noteq> Float3
      then Some (False, result)
      else
        do {
          (closest', result') \<leftarrow> pick_groups hitTest m (groups m) (closest, result);
          Some (closest' \<noteq> maxDistance, result')
        })"

section \<open>Bounding box and transform\<close>

text \<open>
  \<^verbatim>\<open>Mesh::getBoundingBox\<close>. The box type of Eigen and its operations are parameters:
  the empty box, the extension of a box by a point, and the extension by the box of a
  point sprite (centre and point size).
\<close>

fun bbox_points ::
  "('box \<Rightarrow> vec3 \<Rightarrow> 'box) \<Rightarrow> byte list \<Rightarrow> nat \<Rightarrow> int \<Rightarrow> int \<Rightarrow> 'box \<Rightarrow> 'box option" where
  "bbox_points extendPoint buf 0 vdata st bbox = Some bbox"
| "bbox_points extendPoint buf (Suc n) vdata st bbox =
     do {
       p \<leftarrow> read_vec3 buf vdata;
       bbox_points extendPoint buf n (vdata + st) st (extendPoint bbox p)
     }"

fun bbox_sprites ::
  "('box \<Rightarrow> vec3 \<Rightarrow> f32 \<Rightarrow> 'box) \<Rightarrow> byte list \<Rightarrow> int \<Rightarrow> nat \<Rightarrow> int \<Rightarrow> int \<Rightarrow> 'box \<Rightarrow>
     'box option" where
  "bbox_sprites extendSprite buf pointSizeOffset 0 vdata st bbox = Some bbox"
| "bbox_sprites extendSprite buf pointSizeOffset (Suc n) vdata st bbox =
     do {
       center \<leftarrow> read_vec3 buf vdata;
       pointSize \<leftarrow> read_float buf (vdata + pointSizeOffset);
       bbox_sprites extendSprite buf pointSizeOffset n (vdata + st) st
         (extendSprite bbox center pointSize)
     }"

definition getBoundingBox ::
  "'box \<Rightarrow> ('box \<Rightarrow> vec3 \<Rightarrow> 'box) \<Rightarrow> ('box \<Rightarrow> vec3 \<Rightarrow> f32 \<Rightarrow> 'box) \<Rightarrow> Mesh \<Rightarrow> 'box option" where
  "getBoundingBox emptyBox extendPoint extendSprite m =
     (let bbox = emptyBox in
      if format (getAttribute (vertexDesc m) Position) \<noteq> Float3 then Some bbox
      else
        let vdata = uint (offset (getAttribute (vertexDesc m) Position)) in
        if format (getAttribute (vertexDesc m) PointSize) = Float1 then
          do {
            pointSizeOffset \<leftarrow>
              c_int (sint (offset (getAttribute (vertexDesc m) PointSize)) -
                     sint (offset (getAttribute (vertexDesc m) Position)));
            bbox_sprites extendSprite (vertices m) pointSizeOffset (unat (nVertices m))
              vdata (uint (stride (vertexDesc m))) bbox
          }
        else
          bbox_points extendPoint (vertices m) (unat (nVertices m)) vdata
            (uint (stride (vertexDesc m))) bbox)"

text \<open>
  A loop \<^verbatim>\<open>for (i = 0; i < n; i++, vdata += stride)\<close> whose body works in place on the
  buffer at \<^verbatim>\<open>vdata\<close>; the first argument after the body is the number of iterations
  that remain.
\<close>

fun for_each_vertex ::
  "(byte list \<Rightarrow> int \<Rightarrow> byte list option) \<Rightarrow> nat \<Rightarrow> int \<Rightarrow> int \<Rightarrow> byte list \<Rightarrow> byte list option" where
  "for_each_vertex body 0 vdata st buf = Some buf"
| "for_each_vertex body (Suc n) vdata st buf =
     do {
       buf' \<leftarrow> body buf vdata;
       for_each_vertex body n (vdata + st) st buf'
     }"

text \<open>
  \<^verbatim>\<open>(v + translation) * scale\<close> on a vector of three floats, with the float addition and
  multiplication as parameters, and the statement that replaces the vector at an address
  by it.
\<close>

definition translate_scale ::
  "(f32 \<Rightarrow> f32 \<Rightarrow> f32) \<Rightarrow> (f32 \<Rightarrow> f32 \<Rightarrow> f32) \<Rightarrow> vec3 \<Rightarrow> f32 \<Rightarrow> vec3 \<Rightarrow> vec3" where
  "translate_scale fadd fmul translation scale v =
     (case (v, translation) of
        ((x, y, z), (tx, ty, tz)) \<Rightarrow>
          (fmul (fadd x tx) scale, fmul (fadd y ty) scale, fmul (fadd z tz) scale))"

definition transform_vec3 ::
  "(f32 \<Rightarrow> f32 \<Rightarrow> f32) \<Rightarrow> (f32 \<Rightarrow> f32 \<Rightarrow> f32) \<Rightarrow> vec3 \<Rightarrow> f32 \<Rightarrow> byte list \<Rightarrow> int \<Rightarrow>
     byte list option" where
  "transform_vec3 fadd fmul translation scale buf addr =
     do {
       v \<leftarrow> read_vec3 buf addr;
       write_vec3 buf addr (translate_scale fadd fmul translation scale v)
     }"

definition scale_float ::
  "(f32 \<Rightarrow> f32 \<Rightarrow> f32) \<Rightarrow> f32 \<Rightarrow> byte list \<Rightarrow> int \<Rightarrow> byte list option" where
  "scale_float fmul scale buf addr =
     do {
       x \<leftarrow> read_float buf addr;
       write_float buf addr (fmul x scale)
     }"

text \<open>
  The body of the loop over the groups in \<^verbatim>\<open>Mesh::transform\<close>: a group without override
  buffer is skipped; in an override buffer the position and then the next position of
  every vertex are replaced.
\<close>

definition transform_group ::
  "(f32 \<Rightarrow> f32 \<Rightarrow> f32) \<Rightarrow> (f32 \<Rightarrow> f32 \<Rightarrow> f32) \<Rightarrow> vec3 \<Rightarrow> f32 \<Rightarrow> PrimitiveGroup \<Rightarrow>
     PrimitiveGroup option" where
  "transform_group fadd fmul translation scale g =
     (case vertexOverride g of
        None \<Rightarrow> Some g
      | Some vdata \<Rightarrow>
          let desc = vertexDescriptionOverride g;
              positionOffset = sint (offset (getAttribute desc Position));
              nextPositionOffset = sint (offset (getAttribute desc NextPosition))
          in do {
            vdata' \<leftarrow>
              for_each_vertex
                (\<lambda>buf addr.
                   do {
                     buf' \<leftarrow> transform_vec3 fadd fmul translation scale buf
                               (addr + positionOffset);
                     transform_vec3 fadd fmul translation scale buf'
                       (addr + nextPositionOffset)
                   })
                (unat (vertexCountOverride g)) 0 (uint (stride desc)) vdata;
            Some (g\<lparr>vertexOverride := Some vdata'\<rparr>)
          })"

text \<open>The loop \<^verbatim>\<open>for (i = 0; i < getGroupCount(); i++)\<close> over \<^verbatim>\<open>getGroup(i)\<close>.\<close>

fun transform_groups ::
  "(f32 \<Rightarrow> f32 \<Rightarrow> f32) \<Rightarrow> (f32 \<Rightarrow> f32 \<Rightarrow> f32) \<Rightarrow> vec3 \<Rightarrow> f32 \<Rightarrow> PrimitiveGroup list \<Rightarrow>
     PrimitiveGroup list option" where
  "transform_groups fadd fmul translation scale [] = Some []"
| "transform_groups fadd fmul translation scale (g # rest) =
     do {
       g' \<leftarrow> transform_group fadd fmul translation scale g;
       rest' \<leftarrow> transform_groups fadd fmul translation scale rest;
       Some (g' # rest')
     }"

text \<open>\<^verbatim>\<open>Mesh::transform(translation, scale)\<close>.\<close>

definition transform ::
  "(f32 \<Rightarrow> f32 \<Rightarrow> f32) \<Rightarrow> (f32 \<Rightarrow> f32 \<Rightarrow> f32) \<Rightarrow> Mesh \<Rightarrow> vec3 \<Rightarrow> f32 \<Rightarrow> Mesh option" where
  "transform fadd fmul m translation scale =
     (if format (getAttribute (vertexDesc m) Position) \<noteq> Float3 then Some m
      else
        do {
          vs \<leftarrow> for_each_vertex (transform_vec3 fadd fmul translation scale)
                  (unat (nVertices m))
                  (uint (offset (getAttribute (vertexDesc m) Position)))
                  (uint (stride (vertexDesc m))) (vertices m);
          gs \<leftarrow> transform_groups fadd fmul translation scale (groups m);
          vs' \<leftarrow>
            (if format (getAttribute (vertexDesc m) PointSize) = Float1
             then for_each_vertex (scale_float fmul scale) (unat (nVertices m))
                    (uint (offset (getAttribute (vertexDesc m) PointSize)))
                    (uint (stride (vertexDesc m))) vs
             else Some vs);
          Some (m\<lparr>vertices := vs', groups := gs\<rparr>)
        })"

text \<open>\<^verbatim>\<open>Mesh::getPrimitiveCount\<close>: the sum is an \<^verbatim>\<open>unsigned int\<close> sum.\<close>

definition getPrimitiveCount_mesh :: "Mesh \<Rightarrow> uint" where
  "getPrimitiveCount_mesh m = foldl (\<lambda>count g. count + getPrimitiveCount g) 0 (groups m)"

section \<open>In-place updates of vertex memory, for the statements about \<open>transform\<close>\<close>

text \<open>
  \<open>patch buf x w f\<close> is the buffer with the \<open>w\<close> bytes at offset \<open>x\<close> replaced by their image
  under \<open>f\<close>. A vector of three floats as twelve bytes, and back.
\<close>

definition patch :: "byte list \<Rightarrow> nat \<Rightarrow> nat \<Rightarrow> (byte list \<Rightarrow> byte list) \<Rightarrow> byte list" where
  "patch buf x w f = take x buf @ f (take w (drop x buf)) @ drop (x + w) buf"

definition vec3_bytes :: "vec3 \<Rightarrow> byte list" where
  "vec3_bytes v = (case v of (x, y, z) \<Rightarrow> f32_bytes x @ f32_bytes y @ f32_bytes z)"

definition bytes_vec3 :: "byte list \<Rightarrow> vec3" where
  "bytes_vec3 bs =
     (bytes_f32 (take 4 bs), bytes_f32 (take 4 (drop 4 bs)), bytes_f32 (take 4 (drop 8 bs)))"

text \<open>
  What \<^verbatim>\<open>Mesh::transform\<close> needs of a group with an override buffer for its accesses to
  stay inside the buffer and apart from each other: position and next position lie
  inside the record of the override layout and do not overlap, the stride is
  representable as an \<^verbatim>\<open>int\<close>, and the buffer holds \<^verbatim>\<open>vertexCountOverride\<close> records.
\<close>

definition override_well_formed :: "PrimitiveGroup \<Rightarrow> bool" where
  "override_well_formed g \<longleftrightarrow>
     (case vertexOverride g of
        None \<Rightarrow> True
      | Some vdata \<Rightarrow>
          let desc = vertexDescriptionOverride g;
              st = unat (stride desc);
              positionOffset = unat (offset (getAttribute desc Position));
              nextPositionOffset = unat (offset (getAttribute desc NextPosition))
          in positionOffset + 12 \<le> st \<and> nextPositionOffset + 12 \<le> st \<and>
             (positionOffset + 12 \<le> nextPositionOffset \<or>
              nextPositionOffset + 12 \<le> positionOffset) \<and>
             st < 2 ^ 31 \<and>
             unat (vertexCountOverride g) * st \<le> length vdata)"

text \<open>
  The effect the spec ascribes to \<^verbatim>\<open>transform\<close> on a group: a group without override
  buffer is unchanged; in an override buffer, the position and the next position of each
  of the \<^verbatim>\<open>vertexCountOverride\<close> vertices are replaced by their image under \<open>xf\<close>, and
  nothing else in the group changes.
\<close>

definition override_transformed ::
  "(vec3 \<Rightarrow> vec3) \<Rightarrow> PrimitiveGroup \<Rightarrow> PrimitiveGroup \<Rightarrow> bool" where
  "override_transformed xf g g' \<longleftrightarrow>
     (case vertexOverride g of
        None \<Rightarrow> g' = g
      | Some vdata \<Rightarrow>
          (\<exists>vdata'. g' = g\<lparr>vertexOverride := Some vdata'\<rparr> \<and>
             (let desc = vertexDescriptionOverride g;
                  st = unat (stride desc);
                  positionOffset = unat (offset (getAttribute desc Position));
                  nextPositionOffset = unat (offset (getAttribute desc NextPosition))
              in \<forall>j < unat (vertexCountOverride g).
                   read_vec3 vdata' (int (j * st + positionOffset)) =
                     map_option xf (read_vec3 vdata (int (j * st + positionOffset))) \<and>
                   read_vec3 vdata' (int (j * st + nextPositionOffset)) =
                     map_option xf (read_vec3 vdata (int (j * st + nextPositionOffset))))))"

section \<open>Example layouts and meshes\<close>

definition layout_odd :: VertexDescription where
  "layout_odd =
     VertexDescription_new 16 [\<lparr>semantic = Position, format = Float3, offset = 2\<rparr>]"

definition layout_ok :: VertexDescription where
  "layout_ok =
     VertexDescription_new 16
       [\<lparr>semantic = Position, format = Float3, offset = 0\<rparr>,
        \<lparr>semantic = PointSize, format = Float1, offset = 12\<rparr>]"

text \<open>
  A layout of stride 16 whose one field, three floats, starts four bytes below \<open>2 ^ 32\<close>.
\<close>

definition layout_wrapped :: VertexDescription where
  "layout_wrapped =
     VertexDescription_new 16 [\<lparr>semantic = Position, format = Float3, offset = 0xFFFFFFFC\<rparr>]"

definition mesh_empty :: Mesh where
  "mesh_empty =
     \<lparr>vertexDesc = VertexDescription_new 0 [], nVertices = 0, vertices = [], groups = [],
      name = []\<rparr>"

definition expanded_line_group :: PrimitiveGroup where
  "expanded_line_group =
     PrimitiveGroup_new
       \<lparr>prim := LineList, materialIndex := 7, indices := [0, 1], primOverride := TriList,
        vertexOverride := Some [1, 2, 3, 4], vertexCountOverride := 4,
        indicesOverride := [0, 1, 2, 2, 3, 0]\<rparr>"

definition line_mesh :: Mesh where
  "line_mesh =
     \<lparr>vertexDesc = VertexDescription_new 0 [], nVertices = 2, vertices = [],
      groups = [expanded_line_group], name = []\<rparr>"

text \<open>
  Two vertices at \<open>(0, 0, 0)\<close> and \<open>(1, 0, 0)\<close> (\<^verbatim>\<open>1.0f\<close> is \<open>0x3F800000\<close>) with a layout
  of one \<open>Float3\<close> position, and the group that line expansion makes of the segment
  between them.
\<close>

definition segment_mesh :: Mesh where
  "segment_mesh =
     \<lparr>vertexDesc =
        VertexDescription_new 12 [\<lparr>semantic = Position, format = Float3, offset = 0\<rparr>],
      nVertices = 2,
      vertices = [0, 0, 0, 0, 0, 0, 0, 0, 0, 0, 0, 0,
                  0, 0, 0x80, 0x3F, 0, 0, 0, 0, 0, 0, 0, 0],
      groups = [], name = []\<rparr>"

definition segment_quad :: PrimitiveGroup where
  "segment_quad =
     PrimitiveGroup_new
       \<lparr>vertexOverride := Some
          [0, 0, 0, 0, 0, 0, 0, 0, 0, 0, 0, 0,
             0, 0, 0x80, 0x3F, 0, 0, 0, 0, 0, 0, 0, 0,   0, 0, 0, 0xBF,
           0, 0, 0, 0, 0, 0, 0, 0, 0, 0, 0, 0,
             0, 0, 0x80, 0x3F, 0, 0, 0, 0, 0, 0, 0, 0,   0, 0, 0, 0x3F,
           0, 0, 0x80, 0x3F, 0, 0, 0, 0, 0, 0, 0, 0,
             0, 0, 0, 0, 0, 0, 0, 0, 0, 0, 0, 0,   0, 0, 0, 0xBF,
           0, 0, 0x80, 0x3F, 0, 0, 0, 0, 0, 0, 0, 0,
             0, 0, 0, 0, 0, 0, 0, 0, 0, 0, 0, 0,   0, 0, 0, 0x3F],
        vertexCountOverride := 4,
        vertexDescriptionOverride :=
          VertexDescription_new 28
            [\<lparr>semantic = Position, format = Float3, offset = 0\<rparr>,
             \<lparr>semantic = NextPosition, format = Float3, offset = 12\<rparr>,
             \<lparr>semantic = ScaleFactor, format = Float1, offset = 24\<rparr>],
        indicesOverride := [0, 1, 2, 2, 3, 0],
        primOverride := TriList\<rparr>"

text \<open>
  A mesh of one triangle whose layout has a normal but no position, and one whose
  position has two floats.
\<close>

definition mesh_no_position :: Mesh where
  "mesh_no_position =
     \<lparr>vertexDesc =
        VertexDescription_new 12 [\<lparr>semantic = Normal, format = Float3, offset = 0\<rparr>],
      nVertices = 3, vertices = replicate 36 0,
      groups = [PrimitiveGroup_new\<lparr>prim := TriList, indices := [0, 1, 2],
                                    primOverride := TriList\<rparr>],
      name = []\<rparr>"

definition mesh_float2_position :: Mesh where
  "mesh_float2_position =
     \<lparr>vertexDesc =
        VertexDescription_new 8 [\<lparr>semantic = Position, format = Float2, offset = 0\<rparr>],
      nVertices = 3, vertices = replicate 24 0,
      groups = [PrimitiveGroup_new\<lparr>prim := TriList, indices := [0, 1, 2],
                                    primOverride := TriList\<rparr>],
      name = []\<rparr>"

text \<open>
  A plain triangle-list batch with a material and indices, and a mesh of six vertices
  with given batches.
\<close>

definition batch :: "uint \<Rightarrow> index32 list \<Rightarrow> PrimitiveGroup" where
  "batch material is =
     PrimitiveGroup_new\<lparr>prim := TriList, materialIndex := material, indices := is,
                         primOverride := TriList\<rparr>"

definition mesh_of_batches :: "PrimitiveGroup list \<Rightarrow> Mesh" where
  "mesh_of_batches gs =
     \<lparr>vertexDesc =
        VertexDescription_new 12 [\<lparr>semantic = Position, format = Float3, offset = 0\<rparr>],
      nVertices = 6, vertices = replicate 72 0, groups = gs, name = []\<rparr>"

text \<open>A mesh of seventeen batches of material 0; batch \<open>k\<close> has the one index \<open>k\<close>.\<close>

definition mesh17 :: Mesh where
  "mesh17 =
     mesh_of_batches
       (map (\<lambda>k. batch 0 [k]) [0, 1, 2, 3, 4, 5, 6, 7, 8, 9, 10, 11, 12, 13, 14, 15, 16])"

text \<open>
  Floats for the examples of \<open>transform\<close>: the bit patterns of \<open>1.0\<close>, \<open>2.0\<close>, \<open>4.0\<close> and a
  NaN, and an addition and a multiplication that agree with IEEE arithmetic on the values
  the examples use (\<open>0 + x\<close>, \<open>x + 0\<close>, \<open>1 + 1\<close>; \<open>0 * x\<close>, \<open>1 * x\<close>, \<open>x * 1\<close>, \<open>2 * 2\<close>). Two
  point sprites of size \<open>1.0\<close> at \<open>(0, 0, 0)\<close> and \<open>(1, 0, 0)\<close>, and the segment mesh with
  its expanded group added.
\<close>

definition float_one :: f32 where "float_one = 0x3F800000"
definition float_two :: f32 where "float_two = 0x40000000"
definition float_four :: f32 where "float_four = 0x40800000"
definition float_nan :: f32 where "float_nan = 0x7FC00000"

definition example_fadd :: "f32 \<Rightarrow> f32 \<Rightarrow> f32" where
  "example_fadd a b =
     (if a = 0 then b else if b = 0 then a
      else if a = float_one \<and> b = float_one then float_two else float_nan)"

definition example_fmul :: "f32 \<Rightarrow> f32 \<Rightarrow> f32" where
  "example_fmul a b =
     (if a = 0 \<or> b = 0 then 0 else if a = float_one then b else if b = float_one then a
      else if a = float_two \<and> b = float_two then float_four else float_nan)"

definition sprite_mesh :: Mesh where
  "sprite_mesh =
     \<lparr>vertexDesc = layout_ok, nVertices = 2,
      vertices = [0, 0, 0, 0, 0, 0, 0, 0, 0, 0, 0, 0,   0, 0, 0x80, 0x3F,
                  0, 0, 0x80, 0x3F, 0, 0, 0, 0, 0, 0, 0, 0,   0, 0, 0x80, 0x3F],
      groups = [], name = []\<rparr>"

definition quad_mesh :: Mesh where
  "quad_mesh = segment_mesh\<lparr>groups := [segment_quad\<lparr>prim := LineList, indices := [0, 1]\<rparr>]\<rparr>"

section \<open>Primitive counts\<close>

lemma unat_of_nat32: "n < 2 ^ 32 \<Longrightarrow> unat (of_nat n :: uint) = n"
  by (simp add: unat_of_nat)

lemma getPrimitiveCount_at_least_two:
  assumes "2 \<le> length (indices g)" and "length (indices g) < 2 ^ 32"
  shows "unat (getPrimitiveCount g) =
     (case prim g of
        TriList \<Rightarrow> length (indices g) div 3
      | TriStrip \<Rightarrow> length (indices g) - 2
      | TriFan \<Rightarrow> length (indices g) - 2
      | LineList \<Rightarrow> length (indices g) div 2
      | LineStrip \<Rightarrow> length (indices g) - 2
      | PointList \<Rightarrow> length (indices g)
      | SpriteList \<Rightarrow> length (indices g)
      | InvalidPrimitiveGroupType \<Rightarrow> 0)"
proof -
  let ?n = "length (indices g)"
  have "(of_nat ?n - 2 :: uint) = of_nat (?n - 2)"
    using assms(1) by simp
  moreover have "?n - 2 < 2 ^ 32" using assms(2) by simp
  ultimately have sub: "unat (of_nat ?n - 2 :: uint) = ?n - 2"
    by (simp only: unat_of_nat32)
  have "?n div 3 < 2 ^ 32" and "?n div 2 < 2 ^ 32"
    using assms(2) by simp_all
  then have d3: "unat (of_nat (?n div 3) :: uint) = ?n div 3"
    and d2: "unat (of_nat (?n div 2) :: uint) = ?n div 2"
    by (simp_all only: unat_of_nat32)
  have idn: "unat (of_nat ?n :: uint) = ?n"
    using assms(2) by (rule unat_of_nat32)
  show ?thesis
    by (cases "prim g") (simp_all add: getPrimitiveCount_def sub d3 d2 idn)
qed

text \<open>
  C1. The count of a strip or fan is \<^verbatim>\<open>indices.size() - 2\<close> with no test of the size:
  for a triangle strip that holds no index the subtraction wraps, and the count the code
  returns is \<open>2 ^ 32 - 2\<close>, not \<open>0\<close>; for a triangle fan or a line strip of one index it
  is \<open>2 ^ 32 - 1\<close>.
\<close>

theorem getPrimitiveCount_empty_strip_wraps:
  "getPrimitiveCount (PrimitiveGroup_new\<lparr>prim := TriStrip, indices := []\<rparr>) = 4294967294 \<and>
   getPrimitiveCount (PrimitiveGroup_new\<lparr>prim := TriFan, indices := [7]\<rparr>) = 4294967295 \<and>
   getPrimitiveCount (PrimitiveGroup_new\<lparr>prim := LineStrip, indices := [7]\<rparr>) = 4294967295"
  by (simp add: getPrimitiveCount_def)

section \<open>Validation and adoption of a layout\<close>

lemma validate_loop_iff:
  "validate_loop s as \<longleftrightarrow>
     (\<forall>a\<in>set as. offset a mod 4 = 0 \<and> offset a + getFormatSize (format a) \<le> s)"
  by (induction as) (auto simp: not_less)

text \<open>
  \<^verbatim>\<open>setVertexDescription\<close> returns \<^verbatim>\<open>false\<close> and leaves the mesh as it was when some
  field of the supplied layout has an offset that is not a multiple of four or ends
  beyond the stride, where the end is offset plus format size as the code adds them, in
  \<^verbatim>\<open>unsigned int\<close>; otherwise it returns \<^verbatim>\<open>true\<close> and the mesh differs from the old one
  exactly in that its layout is the supplied one.
\<close>

lemma setVertexDescription_cases:
  "setVertexDescription m d =
     (if \<exists>a\<in>set (attributes d).
           offset a mod 4 \<noteq> 0 \<or> stride d < offset a + getFormatSize (format a)
      then (False, m)
      else (True, m\<lparr>vertexDesc := d\<rparr>))"
  by (auto simp: setVertexDescription_def validate_def validate_loop_iff not_le)

lemma setVertexDescription_examples:
  "setVertexDescription mesh_empty layout_odd = (False, mesh_empty) \<and>
   setVertexDescription mesh_empty layout_ok = (True, mesh_empty\<lparr>vertexDesc := layout_ok\<rparr>)"
  using setVertexDescription_cases [of mesh_empty layout_odd]
    setVertexDescription_cases [of mesh_empty layout_ok]
  by (simp add: layout_odd_def layout_ok_def VertexDescription_new_def buildSemanticMap_def)

text \<open>
  When no sum of offset and format size reaches \<open>2 ^ 32\<close>, the test of the code is the
  test on the numbers: the layout is refused exactly when some offset is not a multiple
  of four or some offset plus format size exceeds the stride.
\<close>

lemma fits_without_wraparound:
  fixes off size s :: uint
  assumes "unat off + unat size < 2 ^ 32"
  shows "off mod 4 = 0 \<longleftrightarrow> unat off mod 4 = 0"
    and "off + size \<le> s \<longleftrightarrow> unat off + unat size \<le> unat s"
proof -
  have "unat (off mod 4) = unat off mod 4" by (simp add: unat_mod)
  then show "off mod 4 = 0 \<longleftrightarrow> unat off mod 4 = 0"
    by (metis unat_0 unat_eq_zero)
  have "unat (off + size) = unat off + unat size"
    using assms by (simp add: unat_add_lem [THEN iffD1])
  then show "off + size \<le> s \<longleftrightarrow> unat off + unat size \<le> unat s"
    by (simp add: word_le_nat_alt)
qed

lemma setVertexDescription_without_wraparound:
  assumes "\<forall>a\<in>set (attributes d).
             unat (offset a) + unat (getFormatSize (format a)) < 2 ^ 32"
  shows "setVertexDescription m d =
     (if \<exists>a\<in>set (attributes d).
           unat (offset a) mod 4 \<noteq> 0 \<or>
           unat (stride d) < unat (offset a) + unat (getFormatSize (format a))
      then (False, m)
      else (True, m\<lparr>vertexDesc := d\<rparr>))"
proof -
  have "validate d \<longleftrightarrow>
      (\<forall>a\<in>set (attributes d). offset a mod 4 = 0 \<and>
         offset a + getFormatSize (format a) \<le> stride d)"
    by (simp only: validate_def validate_loop_iff)
  also have "\<dots> \<longleftrightarrow>
      (\<forall>a\<in>set (attributes d). unat (offset a) mod 4 = 0 \<and>
         unat (offset a) + unat (getFormatSize (format a)) \<le> unat (stride d))"
  proof (intro ball_cong refl)
    fix a
    assume "a \<in> set (attributes d)"
    with assms have small: "unat (offset a) + unat (getFormatSize (format a)) < 2 ^ 32"
      by (rule bspec)
    from fits_without_wraparound(1) [OF small]
      fits_without_wraparound(2) [OF small, of "stride d"]
    show "(offset a mod 4 = 0 \<and> offset a + getFormatSize (format a) \<le> stride d) \<longleftrightarrow>
        (unat (offset a) mod 4 = 0 \<and>
         unat (offset a) + unat (getFormatSize (format a)) \<le> unat (stride d))"
      by (simp only:)
  qed
  finally have v: "validate d \<longleftrightarrow>
      (\<forall>a\<in>set (attributes d). unat (offset a) mod 4 = 0 \<and>
         unat (offset a) + unat (getFormatSize (format a)) \<le> unat (stride d))" .
  show ?thesis
    unfolding setVertexDescription_def v by (auto simp: not_le)
qed

text \<open>
  C5. The sum \<^verbatim>\<open>attr.offset + getFormatSize(attr.format)\<close> is an \<^verbatim>\<open>unsigned int\<close> sum and
  wraps. For the layout of stride 16 with a \<open>Float3\<close> position at offset \<open>0xFFFFFFFC\<close>,
  offset plus format size is \<open>4294967304\<close>, far beyond the stride, but the sum the code
  compares with the stride is 8: \<^verbatim>\<open>setVertexDescription\<close> returns \<^verbatim>\<open>true\<close> and the mesh
  adopts the layout.
\<close>

theorem setVertexDescription_adopts_wrapped_field:
  "setVertexDescription mesh_empty layout_wrapped =
     (True, mesh_empty\<lparr>vertexDesc := layout_wrapped\<rparr>) \<and>
   attributes layout_wrapped =
     [\<lparr>semantic = Position, format = Float3, offset = 0xFFFFFFFC\<rparr>] \<and>
   stride layout_wrapped = 16 \<and>
   unat (0xFFFFFFFC :: uint) + unat (getFormatSize Float3) = 4294967304 \<and>
   (0xFFFFFFFC :: uint) + getFormatSize Float3 = 8"
  by (simp add: setVertexDescription_def validate_def layout_wrapped_def
        VertexDescription_new_def buildSemanticMap_def)

section \<open>Access to the groups\<close>

lemma addGroup_groups: "groups (snd (addGroup m g)) = groups m @ [g]"
  by (simp add: addGroup_def Let_def)

lemma groups_foldl_addGroup:
  "groups (foldl (\<lambda>m g. snd (addGroup m g)) m gs) = groups m @ gs"
  by (induction gs arbitrary: m) (simp_all add: addGroup_groups)

text \<open>
  C9. After any sequence of groups \<open>gs\<close> has been added to a mesh, \<^verbatim>\<open>getGroup(index)\<close> is
  the null pointer when \<open>index\<close> is at least the number of groups, and otherwise the
  group at that place in insertion order (the groups the mesh had, then \<open>gs\<close>).
\<close>

theorem getGroup_in_insertion_order:
  "getGroup (foldl (\<lambda>m g. snd (addGroup m g)) m gs) index =
     (if unat index < length (groups m) + length gs
      then Some ((groups m @ gs) ! unat index)
      else None)"
  by (simp add: getGroup_def groups_foldl_addGroup)

section \<open>Remapping of indices\<close>

lemma vec_at_uint:
  "vec_at xs (uint i) = (if unat i < length xs then Some (xs ! unat i) else None)"
proof -
  have "uint i = int (unat i)" by (rule uint_nat)
  then have lt: "uint i < int (length xs) \<longleftrightarrow> unat i < length xs"
    by (metis of_nat_less_iff)
  have nn: "0 \<le> uint i" by (rule uint_nonnegative)
  have n: "nat (uint i) = unat i" by (rule nat_uint_eq)
  show ?thesis
    unfolding vec_at_def lt n using nn by (simp only: simp_thms)
qed

lemma remap_loop_Some:
  "\<forall>i\<in>set is. unat i < length indexMap \<Longrightarrow>
     remap_loop indexMap is = Some (map (\<lambda>i. indexMap ! unat i) is)"
  by (induction "is") (simp_all add: vec_at_uint)

lemma remap_groups_Some:
  "\<forall>g\<in>set gs. \<forall>i\<in>set (indices g). unat i < length indexMap \<Longrightarrow>
     remap_groups indexMap gs =
       Some (map (\<lambda>g. g\<lparr>indices := map (\<lambda>i. indexMap ! unat i) (indices g)\<rparr>) gs)"
  by (induction gs) (simp_all add: remap_loop_Some)

text \<open>
  C10. When the map covers every index in use, \<^verbatim>\<open>remapIndices\<close> replaces each index \<open>i\<close>
  of the base index sequence of every group by \<open>indexMap[i]\<close>, and changes nothing else:
  the override indices, override buffer, override vertex count, override layout, both
  topologies and the material index of every group, and the mesh's own layout and
  vertices, are as before.
\<close>

theorem remapIndices_rewrites_base_indices_only:
  assumes "\<forall>g\<in>set (groups m). \<forall>i\<in>set (indices g). unat i < length indexMap"
  shows "\<exists>m'. remapIndices m indexMap = Some m' \<and>
     length (groups m') = length (groups m) \<and>
     (\<forall>k < length (groups m).
        indices (groups m' ! k) = map (\<lambda>i. indexMap ! unat i) (indices (groups m ! k)) \<and>
        indicesOverride (groups m' ! k) = indicesOverride (groups m ! k) \<and>
        vertexOverride (groups m' ! k) = vertexOverride (groups m ! k) \<and>
        vertexCountOverride (groups m' ! k) = vertexCountOverride (groups m ! k) \<and>
        vertexDescriptionOverride (groups m' ! k) = vertexDescriptionOverride (groups m ! k) \<and>
        primOverride (groups m' ! k) = primOverride (groups m ! k) \<and>
        prim (groups m' ! k) = prim (groups m ! k) \<and>
        materialIndex (groups m' ! k) = materialIndex (groups m ! k)) \<and>
     vertexDesc m' = vertexDesc m \<and> nVertices m' = nVertices m \<and>
     vertices m' = vertices m \<and> name m' = name m"
proof -
  let ?f = "\<lambda>g. g\<lparr>indices := map (\<lambda>i. indexMap ! unat i) (indices g)\<rparr>"
  have "remapIndices m indexMap = Some (m\<lparr>groups := map ?f (groups m)\<rparr>)"
    using assms by (simp add: remapIndices_def remap_groups_Some)
  then show ?thesis by simp
qed

theorem remapIndices_rewrites_base_indices_only_witness:
  "\<exists>m'. remapIndices line_mesh [5, 6] = Some m' \<and>
     indices (groups m' ! 0) = [5, 6] \<and>
     indicesOverride (groups m' ! 0) = [0, 1, 2, 2, 3, 0] \<and>
     vertexOverride (groups m' ! 0) = Some [1, 2, 3, 4] \<and>
     primOverride (groups m' ! 0) = TriList \<and>
     prim (groups m' ! 0) = LineList \<and>
     materialIndex (groups m' ! 0) = 7"
proof -
  have "\<forall>g\<in>set (groups line_mesh). \<forall>i\<in>set (indices g). unat i < length [5, 6 :: index32]"
    by (simp add: line_mesh_def expanded_line_group_def PrimitiveGroup_new_def)
  from remapIndices_rewrites_base_indices_only [OF this]
  show ?thesis
    by (auto simp: line_mesh_def expanded_line_group_def PrimitiveGroup_new_def)
qed

section \<open>The walk over triangles in picking\<close>

lemma vec_at_nat: "k < length xs \<Longrightarrow> vec_at xs (int k) = Some (xs ! k)"
  by (simp add: vec_at_def)

lemma walk_group_not_walked:
  assumes "prim g \<notin> {TriList, TriStrip, TriFan} \<or> length (indices g) < 3 \<or>
           (prim g = TriList \<and> length (indices g) mod 3 \<noteq> 0)"
  shows "walk_group examine g s = Some s"
  using assms by (auto simp: walk_group_def Let_def)

text \<open>One step of the walk over a strip and over a fan.\<close>

lemma next_triangle_strip:
  "Suc k < length is \<Longrightarrow>
     next_triangle TriStrip is k (i0, i1, i2) = Some (Suc k, (i1, i2, is ! Suc k))"
  using vec_at_nat [of "Suc k" "is"] by (simp add: next_triangle_def)

lemma next_triangle_strip_end:
  "\<not> Suc k < length is \<Longrightarrow>
     next_triangle TriStrip is k (i0, i1, i2) = Some (Suc k, (i0, i1, i2))"
  by (simp add: next_triangle_def)

lemma next_triangle_fan:
  "Suc (Suc k) < length is \<Longrightarrow>
     next_triangle TriFan is k (i0, i1, i2) = Some (Suc (Suc k), (i0, i2, is ! Suc (Suc k)))"
  using vec_at_nat [of "Suc (Suc k)" "is"] by (simp add: next_triangle_def)

lemma next_triangle_fan_overrun:
  "Suc k < length is \<Longrightarrow> \<not> Suc (Suc k) < length is \<Longrightarrow>
     next_triangle TriFan is k (i0, i1, i2) = None"
  by (simp add: next_triangle_def vec_at_def)

text \<open>
  From index \<open>k\<close> the walk over a strip examines one triangle for every index left,
  the one at \<open>k\<close> included.
\<close>

lemma strip_walk_length:
  "k < length is \<Longrightarrow>
     \<exists>ts. walk_triangles (\<lambda>p t acc. Some (acc @ [t])) TriStrip is k t p acc = Some (acc @ ts) \<and>
          length ts = length is - k"
proof (induction "length is - k" arbitrary: k t p acc)
  case 0
  then show ?case by simp
next
  case (Suc d)
  obtain i0 i1 i2 where t: "t = (i0, i1, i2)" by (cases t)
  show ?case
  proof (cases "Suc k < length is")
    case False
    have "walk_triangles (\<lambda>p t acc. Some (acc @ [t])) TriStrip is k t p acc = Some (acc @ [t])"
      using False
      by (subst walk_triangles.simps)
        (simp add: next_triangle_strip_end t del: walk_triangles.simps)
    moreover have "length [t] = length is - k" using False Suc.prems by simp
    ultimately show ?thesis by blast
  next
    case True
    have d: "d = length is - Suc k" using Suc.hyps(2) by simp
    from Suc.hyps(1) [OF d True, of "(i1, i2, is ! Suc k)" "p + 1" "acc @ [t]"]
    obtain ts where
      run: "walk_triangles (\<lambda>p t acc. Some (acc @ [t])) TriStrip is (Suc k)
              (i1, i2, is ! Suc k) (p + 1) (acc @ [t]) = Some ((acc @ [t]) @ ts)"
      and len: "length ts = length is - Suc k"
      by (elim exE conjE) (rule that)
    have "walk_triangles (\<lambda>p t acc. Some (acc @ [t])) TriStrip is k t p acc =
        Some (acc @ t # ts)"
      using True run
      by (subst walk_triangles.simps)
        (simp add: next_triangle_strip t del: walk_triangles.simps)
    moreover have "length (t # ts) = length is - k" using len True by simp
    ultimately show ?thesis by blast
  qed
qed

text \<open>
  Over a fan the index advances by two, so with an even number of indices it steps from
  the last but one index to one place beyond the sequence and reads there.
\<close>

lemma fan_walk_overrun:
  "even (length is) \<Longrightarrow> even k \<Longrightarrow> k < length is \<Longrightarrow>
     walk_triangles (\<lambda>p t acc. Some (acc @ [t])) TriFan is k t p acc = None"
proof (induction "length is - k" arbitrary: k t p acc rule: less_induct)
  case less
  obtain i0 i1 i2 where t: "t = (i0, i1, i2)" by (cases t)
  have k1: "Suc k < length is"
    using less.prems by (metis Suc_lessI even_Suc)
  show ?case
  proof (cases "Suc (Suc k) < length is")
    case False
    then show ?thesis
      using k1
      by (subst walk_triangles.simps)
        (simp add: next_triangle_fan_overrun t del: walk_triangles.simps)
  next
    case True
    have "length is - Suc (Suc k) < length is - k" using True by simp
    from less.hyps [OF this less.prems(1) _ True, of "(i0, i2, is ! Suc (Suc k))" "p + 1"
        "acc @ [t]"] less.prems(2)
    have "walk_triangles (\<lambda>p t acc. Some (acc @ [t])) TriFan is (Suc (Suc k))
        (i0, i2, is ! Suc (Suc k)) (p + 1) (acc @ [t]) = None"
      by (simp del: walk_triangles.simps)
    then show ?thesis
      using True
      by (subst walk_triangles.simps)
        (simp add: next_triangle_fan t del: walk_triangles.simps)
  qed
qed

text \<open>The walk of a strip or fan of at least three indices starts at index 0.\<close>

lemma walk_group_start:
  assumes "prim g = TriStrip \<or> prim g = TriFan" and "3 \<le> length (indices g)"
  shows "walk_group examine g s =
           walk_triangles examine (prim g) (indices g) 0
             (indices g ! 0, indices g ! 1, indices g ! 2) 0 s"
proof -
  have v0: "vec_at (indices g) 0 = Some (indices g ! 0)"
    using assms(2) by (cases "indices g") (simp_all add: vec_at_def)
  have v1: "vec_at (indices g) 1 = Some (indices g ! 1)"
    using assms(2) vec_at_nat [of 1 "indices g"] by auto
  have v2: "vec_at (indices g) 2 = Some (indices g ! 2)"
    using assms(2) vec_at_nat [of 2 "indices g"] by auto
  show ?thesis
    using assms
    by (auto simp add: walk_group_def Let_def v0 v1 v2 simp del: walk_triangles.simps)
qed

text \<open>
  A strip of \<open>n \<ge> 3\<close> indices is examined for \<open>n\<close> triangles; a fan with an even number
  \<open>n \<ge> 4\<close> of indices is read beyond its indices.
\<close>

lemma strip_walk_count:
  assumes "prim g = TriStrip" and "3 \<le> length (indices g)"
  shows "\<exists>ts. triangles_examined g = Some ts \<and> length ts = length (indices g)"
proof -
  have "0 < length (indices g)" using assms(2) by (cases "indices g") simp_all
  from strip_walk_length [OF this, of "(indices g ! 0, indices g ! 1, indices g ! 2)" 0 "[]"]
  obtain ts where
    run: "walk_triangles (\<lambda>p t acc. Some (acc @ [t])) TriStrip (indices g) 0
            (indices g ! 0, indices g ! 1, indices g ! 2) 0 [] = Some ([] @ ts)"
    and len: "length ts = length (indices g) - 0"
    by (elim exE conjE) (rule that)
  have "triangles_examined g = Some ts"
    unfolding triangles_examined_def
    by (simp only: walk_group_start [OF disjI1 [OF assms(1)] assms(2)] assms(1) run append_Nil)
  moreover have "length ts = length (indices g)" using len by simp
  ultimately show ?thesis by blast
qed

lemma fan_walk_even:
  assumes "prim g = TriFan" and "4 \<le> length (indices g)" and "even (length (indices g))"
  shows "triangles_examined g = None"
proof -
  have pos: "0 < length (indices g)" using assms(2) by (cases "indices g") simp_all
  have three: "3 \<le> length (indices g)" using assms(2) by auto
  have run: "walk_triangles (\<lambda>p t acc. Some (acc @ [t])) TriFan (indices g) 0
      (indices g ! 0, indices g ! 1, indices g ! 2) 0 [] = None"
    using assms(3) _ pos by (rule fan_walk_overrun) simp
  show ?thesis
    unfolding triangles_examined_def
    by (simp only: walk_group_start [OF disjI2 [OF assms(1)] three] assms(1) run)
qed

text \<open>
  C3. The walk over a strip or fan starts with \<^verbatim>\<open>index = 0\<close> and, after the first
  triangle, reads \<^verbatim>\<open>indices[index]\<close> at 1, 2, ... (strip) or 2, 4, ... (fan) as the third
  vertex. For the strip of the three indices 10, 11, 12 it examines three triangles,
  the second and third made of indices already used, where the strip has one triangle.
  For the fan of the four indices 10, 11, 12, 13 the second step reads \<^verbatim>\<open>indices[4]\<close>,
  one place beyond the sequence.
\<close>

theorem walk_revisits_strip_and_overruns_fan:
  "triangles_examined (PrimitiveGroup_new\<lparr>prim := TriStrip, indices := [10, 11, 12]\<rparr>) =
     Some [(10, 11, 12), (11, 12, 11), (12, 11, 12)] \<and>
   triangles_examined (PrimitiveGroup_new\<lparr>prim := TriFan, indices := [10, 11, 12, 13]\<rparr>) =
     None"
  by (simp add: triangles_examined_def walk_group_def PrimitiveGroup_new_def vec_at_def
        next_triangle_def)

section \<open>Lookup of a field by its semantic\<close>

lemma semanticMap_foldl_other:
  "sem \<notin> semantic ` set as \<Longrightarrow>
     foldl (\<lambda>m a. m(semantic a := a)) m0 as sem = m0 sem"
  by (induction as arbitrary: m0) auto

lemma semanticMap_foldl_cases:
  "foldl (\<lambda>m a. m(semantic a := a)) m0 as sem = m0 sem \<or>
   (\<exists>a\<in>set as. semantic a = sem \<and> foldl (\<lambda>m a. m(semantic a := a)) m0 as sem = a)"
proof (induction as arbitrary: m0)
  case Nil
  show ?case by simp
next
  case (Cons b bs)
  from Cons.IH [of "m0(semantic b := b)"] show ?case
    by (cases "semantic b = sem") auto
qed

lemma getAttribute_new:
  "getAttribute (VertexDescription_new s as) sem =
     foldl (\<lambda>m a. m(semantic a := a)) (\<lambda>s. VertexAttribute_default) as sem"
  by (simp add: getAttribute_def VertexDescription_new_def buildSemanticMap_def Let_def)

lemma stride_new [simp]: "stride (VertexDescription_new s as) = s"
  by (simp add: VertexDescription_new_def buildSemanticMap_def Let_def)

lemma attributes_new [simp]: "attributes (VertexDescription_new s as) = as"
  by (simp add: VertexDescription_new_def buildSemanticMap_def Let_def)

lemma no_float3_position:
  assumes "\<forall>a\<in>set as. \<not> (semantic a = Position \<and> format a = Float3)"
  shows "format (getAttribute (VertexDescription_new s as) Position) \<noteq> Float3"
proof -
  let ?r = "foldl (\<lambda>m a. m(semantic a := a)) (\<lambda>s. VertexAttribute_default) as Position"
  from semanticMap_foldl_cases [of "\<lambda>s. VertexAttribute_default" as Position]
  have "?r = VertexAttribute_default \<or> (\<exists>a\<in>set as. semantic a = Position \<and> ?r = a)"
    by simp
  then have "format ?r \<noteq> Float3"
    using assms by (auto simp: VertexAttribute_default_def)
  then show ?thesis by (simp add: getAttribute_new)
qed

section \<open>Queries on a mesh without a three-float position\<close>

text \<open>
  C6. When the layout of the mesh (as its constructor built it from a stride and a field
  list) has no field of semantic \<open>Position\<close> and format \<open>Float3\<close>, \<^verbatim>\<open>pick\<close> returns
  \<^verbatim>\<open>false\<close> and leaves the record behind \<^verbatim>\<open>result\<close> as it was, \<^verbatim>\<open>getBoundingBox\<close> returns the
  empty box, and \<^verbatim>\<open>transform\<close> returns with the mesh unchanged; none of them runs into
  undefined behaviour, whatever the buffers and groups of the mesh are.
\<close>

theorem queries_without_float3_position:
  assumes "vertexDesc m = VertexDescription_new s as"
    and "\<forall>a\<in>set as. \<not> (semantic a = Position \<and> format a = Float3)"
  shows "pick hitTest maxDistance m result = Some (False, result) \<and>
         getBoundingBox emptyBox extendPoint extendSprite m = Some emptyBox \<and>
         transform fadd fmul m translation scale = Some m"
proof -
  have "format (getAttribute (vertexDesc m) Position) \<noteq> Float3"
    using assms by (simp add: no_float3_position)
  then show ?thesis
    by (simp add: pick_def getBoundingBox_def transform_def Let_def)
qed

theorem queries_without_float3_position_witness:
  "pick (\<lambda>v0 v1 v2 closest. Some closest) (0 :: nat) mesh_no_position None = Some (False, None) \<and>
   getBoundingBox [] (\<lambda>box p. p # box) (\<lambda>box p size. p # box) mesh_no_position = Some [] \<and>
   transform (+) (*) mesh_no_position (1, 2, 3) 2 = Some mesh_no_position \<and>
   pick (\<lambda>v0 v1 v2 closest. Some closest) (0 :: nat) mesh_float2_position None =
     Some (False, None) \<and>
   getBoundingBox [] (\<lambda>box p. p # box) (\<lambda>box p size. p # box) mesh_float2_position = Some [] \<and>
   transform (+) (*) mesh_float2_position (1, 2, 3) 2 = Some mesh_float2_position"
proof -
  have a: "vertexDesc mesh_no_position =
      VertexDescription_new 12 [\<lparr>semantic = Normal, format = Float3, offset = 0\<rparr>]"
    by (simp add: mesh_no_position_def)
  have b: "vertexDesc mesh_float2_position =
      VertexDescription_new 8 [\<lparr>semantic = Position, format = Float2, offset = 0\<rparr>]"
    by (simp add: mesh_float2_position_def)
  have a': "\<forall>a\<in>set [\<lparr>semantic = Normal, format = Float3, offset = 0 :: uint\<rparr>].
      \<not> (semantic a = Position \<and> format a = Float3)"
    by simp
  have b': "\<forall>a\<in>set [\<lparr>semantic = Position, format = Float2, offset = 0 :: uint\<rparr>].
      \<not> (semantic a = Position \<and> format a = Float3)"
    by simp
  show ?thesis
    using
      queries_without_float3_position [OF a a', where hitTest = "\<lambda>v0 v1 v2 closest. Some closest"
        and maxDistance = "0 :: nat" and result = None and emptyBox = "[]"
        and extendPoint = "\<lambda>box p. p # box" and extendSprite = "\<lambda>box p size. p # box"
        and fadd = "(+)" and fmul = "(*)" and translation = "(1, 2, 3)" and scale = 2]
      queries_without_float3_position [OF b b', where hitTest = "\<lambda>v0 v1 v2 closest. Some closest"
        and maxDistance = "0 :: nat" and result = None and emptyBox = "[]"
        and extendPoint = "\<lambda>box p. p # box" and extendSprite = "\<lambda>box p size. p # box"
        and fadd = "(+)" and fmul = "(*)" and translation = "(1, 2, 3)" and scale = 2]
    by simp
qed

section \<open>Appending fields to a layout\<close>

lemma appending_loop_eq:
  "appending_loop all st new =
     (all @ new, st + sum_list (map (\<lambda>a. getFormatSize (format a)) new))"
  by (induction new arbitrary: all st) (simp_all add: add.assoc)

lemma appendingAttributes_eq:
  "appendingAttributes d new =
     VertexDescription_new (stride d + sum_list (map (\<lambda>a. getFormatSize (format a)) new))
       (attributes d @ new)"
  by (simp add: appendingAttributes_def appending_loop_eq)


lemma createLinePrimitiveGroup_layout:
  assumes "createLinePrimitiveGroup m lineStrip is = Some g"
  shows "vertexDescriptionOverride g =
     appendingAttributes (vertexDesc m)
       [\<lparr>semantic = NextPosition, format = format (getAttribute (vertexDesc m) Position),
         offset = stride (vertexDesc m)\<rparr>,
        \<lparr>semantic = ScaleFactor, format = Float1,
         offset = stride (vertexDesc m) +
                  getFormatSize (format (getAttribute (vertexDesc m) Position))\<rparr>]"
  using assms
  by (auto simp: createLinePrimitiveGroup_def Let_def
        dest!: bind_eq_Some_conv [THEN iffD1] split: if_splits)

lemma segment_quad_eq: "createLinePrimitiveGroup segment_mesh False [0, 1] = Some segment_quad"
  by (simp add: createLinePrimitiveGroup_def segment_mesh_def segment_quad_def Let_def
       getAttribute_def VertexDescription_new_def buildSemanticMap_def c_int_def vec_at_def
       line_vertex_def memread_def minus_half_def plus_half_def f32_bytes_def
       appendingAttributes_def PrimitiveGroup_new_def)


text \<open>
  C8. \<^verbatim>\<open>appendingAttributes\<close> yields the original fields followed by the new ones, and
  the original stride plus the byte sizes of the new fields. For the layout that line
  expansion builds from a layout with stride \<open>s\<close> (below \<open>2 ^ 31\<close>, as the code holds it
  in an \<^verbatim>\<open>int\<close>): the appended fields are \<open>NextPosition\<close> at offset \<open>s\<close> and \<open>ScaleFactor\<close>
  at offset \<open>s\<close> plus the size of the position; the lookup of either semantic returns the
  appended field, at an offset of at least \<open>s\<close>; the original fields are the first
  fields of the new layout, and the lookup of every other semantic is what it was.
\<close>

theorem appended_layout_of_line_expansion:
  assumes expanded: "createLinePrimitiveGroup m lineStrip is = Some g"
    and built: "vertexDesc m = VertexDescription_new s as"
    and room: "unat s < 2 ^ 31"
  shows
    "attributes (appendingAttributes d new) = attributes d @ new \<and>
     stride (appendingAttributes d new) =
       stride d + sum_list (map (\<lambda>a. getFormatSize (format a)) new) \<and>
     (let pos = getAttribute (vertexDesc m) Position;
          nextPosition = \<lparr>semantic = NextPosition, format = format pos, offset = s\<rparr>;
          scaleFactor = \<lparr>semantic = ScaleFactor, format = Float1,
                         offset = s + getFormatSize (format pos)\<rparr>;
          d' = vertexDescriptionOverride g
      in d' = appendingAttributes (vertexDesc m) [nextPosition, scaleFactor] \<and>
         attributes d' = as @ [nextPosition, scaleFactor] \<and>
         stride d' = s + getFormatSize (format pos) + getFormatSize Float1 \<and>
         getAttribute d' NextPosition = nextPosition \<and>
         getAttribute d' ScaleFactor = scaleFactor \<and>
         s \<le> offset (getAttribute d' NextPosition) \<and>
         s \<le> offset (getAttribute d' ScaleFactor) \<and>
         take (length as) (attributes d') = as \<and>
         (\<forall>sem. sem \<noteq> NextPosition \<and> sem \<noteq> ScaleFactor \<longrightarrow>
            getAttribute d' sem = getAttribute (vertexDesc m) sem))"
proof -
  define pos where "pos = getAttribute (vertexDesc m) Position"
  define nextPosition where
    "nextPosition = \<lparr>semantic = NextPosition, format = format pos, offset = s\<rparr>"
  define scaleFactor where
    "scaleFactor = \<lparr>semantic = ScaleFactor, format = Float1,
                     offset = s + getFormatSize (format pos)\<rparr>"
  define d' where "d' = vertexDescriptionOverride g"
  have general: "attributes (appendingAttributes d new) = attributes d @ new \<and>
     stride (appendingAttributes d new) =
       stride d + sum_list (map (\<lambda>a. getFormatSize (format a)) new)"
    by (simp add: appendingAttributes_eq)
  have d'_eq: "d' = appendingAttributes (vertexDesc m) [nextPosition, scaleFactor]"
    using createLinePrimitiveGroup_layout [OF expanded] built
    by (simp add: d'_def nextPosition_def scaleFactor_def pos_def)
  then have d'_new: "d' = VertexDescription_new
      (s + getFormatSize (format pos) + getFormatSize Float1) (as @ [nextPosition, scaleFactor])"
    using built by (simp add: appendingAttributes_eq nextPosition_def scaleFactor_def add.assoc)
  have attrs: "attributes d' = as @ [nextPosition, scaleFactor]"
    and str: "stride d' = s + getFormatSize (format pos) + getFormatSize Float1"
    by (simp_all add: d'_new)
  have np: "getAttribute d' NextPosition = nextPosition"
    by (simp add: d'_new getAttribute_new nextPosition_def scaleFactor_def)
  have sf: "getAttribute d' ScaleFactor = scaleFactor"
    by (simp add: d'_new getAttribute_new nextPosition_def scaleFactor_def)
  have size_le: "unat (getFormatSize (format pos)) \<le> 16"
    by (cases "format pos") simp_all
  have "unat s + unat (getFormatSize (format pos)) < 2 ^ 32"
    using room size_le by simp
  then have "s \<le> s + getFormatSize (format pos)"
    by (simp add: no_olen_add_nat)
  then have ge: "s \<le> offset (getAttribute d' NextPosition)"
    "s \<le> offset (getAttribute d' ScaleFactor)"
    by (simp_all add: np sf nextPosition_def scaleFactor_def)
  have other: "getAttribute d' sem = getAttribute (vertexDesc m) sem"
    if "sem \<noteq> NextPosition \<and> sem \<noteq> ScaleFactor" for sem
  proof -
    have "sem \<notin> semantic ` set [nextPosition, scaleFactor]"
      using that by (auto simp: nextPosition_def scaleFactor_def)
    then have "foldl (\<lambda>m a. m(semantic a := a))
        (foldl (\<lambda>m a. m(semantic a := a)) (\<lambda>s. VertexAttribute_default) as)
        [nextPosition, scaleFactor] sem =
        foldl (\<lambda>m a. m(semantic a := a)) (\<lambda>s. VertexAttribute_default) as sem"
      by (rule semanticMap_foldl_other)
    then show ?thesis
      by (simp only: d'_new built getAttribute_new foldl_append)
  qed
  show ?thesis
    unfolding Let_def
    using general d'_eq attrs str np sf ge other
    by (simp add: pos_def nextPosition_def scaleFactor_def d'_def)
qed


theorem appended_layout_of_line_expansion_witness:
  "attributes (appendingAttributes layout_ok
      [\<lparr>semantic = Normal, format = UByte4, offset = 16\<rparr>]) =
     [\<lparr>semantic = Position, format = Float3, offset = 0\<rparr>,
      \<lparr>semantic = PointSize, format = Float1, offset = 12\<rparr>,
      \<lparr>semantic = Normal, format = UByte4, offset = 16\<rparr>] \<and>
   stride (appendingAttributes layout_ok
      [\<lparr>semantic = Normal, format = UByte4, offset = 16\<rparr>]) = 20 \<and>
   attributes (vertexDescriptionOverride segment_quad) =
     [\<lparr>semantic = Position, format = Float3, offset = 0\<rparr>,
      \<lparr>semantic = NextPosition, format = Float3, offset = 12\<rparr>,
      \<lparr>semantic = ScaleFactor, format = Float1, offset = 24\<rparr>] \<and>
   stride (vertexDescriptionOverride segment_quad) = 28 \<and>
   getAttribute (vertexDescriptionOverride segment_quad) NextPosition =
     \<lparr>semantic = NextPosition, format = Float3, offset = 12\<rparr> \<and>
   getAttribute (vertexDescriptionOverride segment_quad) ScaleFactor =
     \<lparr>semantic = ScaleFactor, format = Float1, offset = 24\<rparr> \<and>
   getAttribute (vertexDescriptionOverride segment_quad) Position =
     getAttribute (vertexDesc segment_mesh) Position"
proof -
  have built: "vertexDesc segment_mesh =
      VertexDescription_new 12 [\<lparr>semantic = Position, format = Float3, offset = 0\<rparr>]"
    by (simp add: segment_mesh_def)
  have room: "unat (12 :: uint) < 2 ^ 31" by simp
  have pos: "getAttribute (vertexDesc segment_mesh) Position =
      \<lparr>semantic = Position, format = Float3, offset = 0\<rparr>"
    by (simp add: built getAttribute_new)
  note T = appended_layout_of_line_expansion [OF segment_quad_eq built room,
      of layout_ok "[\<lparr>semantic = Normal, format = UByte4, offset = 16\<rparr>]",
      unfolded Let_def pos]
  from T have "attributes (appendingAttributes layout_ok
      [\<lparr>semantic = Normal, format = UByte4, offset = 16\<rparr>]) =
      attributes layout_ok @ [\<lparr>semantic = Normal, format = UByte4, offset = 16\<rparr>]"
    and "stride (appendingAttributes layout_ok
      [\<lparr>semantic = Normal, format = UByte4, offset = 16\<rparr>]) =
      stride layout_ok + sum_list (map (\<lambda>a. getFormatSize (format a))
        [\<lparr>semantic = Normal, format = UByte4, offset = 16 :: uint\<rparr>])"
    and "attributes (vertexDescriptionOverride segment_quad) =
      [\<lparr>semantic = Position, format = Float3, offset = 0\<rparr>] @
      [\<lparr>semantic = NextPosition, format = format \<lparr>semantic = Position, format = Float3, offset = 0 :: uint\<rparr>, offset = 12\<rparr>,
       \<lparr>semantic = ScaleFactor, format = Float1, offset = 12 + getFormatSize (format \<lparr>semantic = Position, format = Float3, offset = 0 :: uint\<rparr>)\<rparr>]"
    and "stride (vertexDescriptionOverride segment_quad) =
      12 + getFormatSize (format \<lparr>semantic = Position, format = Float3, offset = 0 :: uint\<rparr>) + getFormatSize Float1"
    and "getAttribute (vertexDescriptionOverride segment_quad) NextPosition =
      \<lparr>semantic = NextPosition, format = format \<lparr>semantic = Position, format = Float3, offset = 0 :: uint\<rparr>, offset = 12\<rparr>"
    and "getAttribute (vertexDescriptionOverride segment_quad) ScaleFactor =
      \<lparr>semantic = ScaleFactor, format = Float1, offset = 12 + getFormatSize (format \<lparr>semantic = Position, format = Float3, offset = 0 :: uint\<rparr>)\<rparr>"
    and "getAttribute (vertexDescriptionOverride segment_quad) Position =
      getAttribute (vertexDesc segment_mesh) Position"
    by blast+
  then show ?thesis
    by (simp add: layout_ok_def)
qed

section \<open>The sort of the library sorts\<close>

text \<open>
  The comparison is \<open>key a < key b\<close> for a key in a linear order, as the comparison of
  material indices is. The proof follows the algorithm: the insertion sorts, the
  partition around the median of three, the heap sort, and the introsort loop, which
  leaves a least element of the range among its first 16 positions, so that the
  unguarded insertions of the final pass stop inside the vector.
\<close>

subsection \<open>Insertion sort\<close>

lemma elem_at_Some [simp]: "i < length xs \<Longrightarrow> elem_at xs i = Some (xs ! i)"
  by (simp add: elem_at_def)

lemma assign_at_Some [simp]: "i < length xs \<Longrightarrow> assign_at xs i v = Some (xs[i := v])"
  by (simp add: assign_at_def)

lemma cmp_at_Some [simp]:
  "a < length xs \<Longrightarrow> b < length xs \<Longrightarrow> cmp_at cmp xs a b = Some (cmp (xs ! a) (xs ! b))"
  by (simp add: cmp_at_def)

lemma iter_swap_Some [simp]:
  "a < length xs \<Longrightarrow> b < length xs \<Longrightarrow> iter_swap xs a b = Some (xs[a := xs ! b, b := xs ! a])"
  by (simp add: iter_swap_def)

lemma linear_insert_loop_shape:
  assumes "l < length xs" and "\<exists>j<l. \<not> cmp v (xs ! j)"
  shows "\<exists>k\<le>l. linear_insert_loop cmp xs v l =
             Some (take k xs @ v # take (l - k) (drop k xs) @ drop (Suc l) xs) \<and>
           (\<forall>j. k \<le> j \<and> j < l \<longrightarrow> cmp v (xs ! j)) \<and>
           (0 < k \<longrightarrow> \<not> cmp v (xs ! (k - 1)))"
  using assms
proof (induction l arbitrary: xs)
  case 0
  then show ?case by simp
next
  case (Suc n)
  have n: "n < length xs" using Suc.prems(1) by simp
  show ?case
  proof (cases "cmp v (xs ! n)")
    case False
    have "xs[Suc n := v] = take (Suc n) xs @ v # drop (Suc (Suc n)) xs"
      using Suc.prems(1) by (rule upd_conv_take_nth_drop)
    then show ?thesis
      using False n Suc.prems(1) by (intro exI [of _ "Suc n"]) auto
  next
    case True
    define xs' where "xs' = xs[Suc n := xs ! n]"
    have len: "n < length xs'" using n by (simp add: xs'_def)
    from Suc.prems(2) obtain j where j: "j < Suc n" "\<not> cmp v (xs ! j)" by blast
    with True have "j < n" by (cases "j = n") auto
    moreover have "xs' ! j = xs ! j" using \<open>j < n\<close> by (simp add: xs'_def)
    ultimately have "\<exists>j<n. \<not> cmp v (xs' ! j)" using j(2) by auto
    from Suc.IH [OF len this] obtain k where k: "k \<le> n"
      and run: "linear_insert_loop cmp xs' v n =
          Some (take k xs' @ v # take (n - k) (drop k xs') @ drop (Suc n) xs')"
      and above: "\<forall>j. k \<le> j \<and> j < n \<longrightarrow> cmp v (xs' ! j)"
      and below: "0 < k \<longrightarrow> \<not> cmp v (xs' ! (k - 1))"
      by blast
    have t1: "take k xs' = take k xs"
      using k by (simp add: xs'_def)
    have t2: "take (n - k) (drop k xs') = take (n - k) (drop k xs)"
      using k by (simp add: xs'_def drop_update_swap)
    have t3: "drop (Suc n) xs' = xs ! n # drop (Suc (Suc n)) xs"
    proof -
      have "drop (Suc n) xs' = (drop (Suc n) xs)[0 := xs ! n]"
        by (simp add: xs'_def drop_update_swap)
      also have "drop (Suc n) xs = xs ! Suc n # drop (Suc (Suc n)) xs"
        using Suc.prems(1) by (simp add: Cons_nth_drop_Suc)
      finally show ?thesis by simp
    qed
    have t4: "take (Suc n - k) (drop k xs) = take (n - k) (drop k xs) @ [xs ! n]"
    proof -
      have "Suc n - k = Suc (n - k)" using k by simp
      moreover have "n - k < length (drop k xs)" using n k by simp
      moreover have "drop k xs ! (n - k) = xs ! n" using n k by simp
      ultimately show ?thesis by (simp add: take_Suc_conv_app_nth)
    qed
    have "linear_insert_loop cmp xs v (Suc n) =
        Some (take k xs @ v # take (Suc n - k) (drop k xs) @ drop (Suc (Suc n)) xs)"
      using True n Suc.prems(1) run by (simp add: xs'_def [symmetric] t1 t2 t3 t4)
    moreover have "\<forall>j. k \<le> j \<and> j < Suc n \<longrightarrow> cmp v (xs ! j)"
    proof (intro allI impI)
      fix j assume j: "k \<le> j \<and> j < Suc n"
      show "cmp v (xs ! j)"
      proof (cases "j = n")
        case True
        then show ?thesis using \<open>cmp v (xs ! n)\<close> by simp
      next
        case False
        then have "j < n" using j by simp
        then have "cmp v (xs' ! j)" using above j by simp
        then show ?thesis using \<open>j < n\<close> by (simp add: xs'_def)
      qed
    qed
    moreover have "0 < k \<longrightarrow> \<not> cmp v (xs ! (k - 1))"
      using below k by (auto simp: xs'_def)
    ultimately show ?thesis
      using k by (intro exI [of _ k]) simp
  qed
qed

lemma move_to_props:
  assumes "k \<le> l" and "l < length xs"
  shows "length (move_to xs k l) = length xs"
    and "take (Suc l) (move_to xs k l) = take k xs @ xs ! l # take (l - k) (drop k xs)"
    and "drop (Suc l) (move_to xs k l) = drop (Suc l) xs"
    and "mset (take (Suc l) (move_to xs k l)) = mset (take (Suc l) xs)"
proof -
  have lk: "length (take k xs @ xs ! l # take (l - k) (drop k xs)) = Suc l"
    using assms by simp
  show "length (move_to xs k l) = length xs"
    using assms by (simp add: move_to_def)
  show t: "take (Suc l) (move_to xs k l) = take k xs @ xs ! l # take (l - k) (drop k xs)"
    using lk unfolding move_to_def
    by (metis append.assoc append_Cons append_eq_conv_conj)
  show "drop (Suc l) (move_to xs k l) = drop (Suc l) xs"
    using lk unfolding move_to_def
    by (metis append.assoc append_Cons append_eq_conv_conj)
  have "take (Suc l) xs = take k xs @ take (l - k) (drop k xs) @ [xs ! l]"
  proof -
    have "take (Suc l) xs = take l xs @ [xs ! l]"
      using assms(2) by (rule take_Suc_conv_app_nth)
    moreover have "take l xs = take k xs @ take (l - k) (drop k xs)"
      using assms(1) take_add [of k "l - k" xs] by simp
    ultimately show ?thesis by simp
  qed
  then show "mset (take (Suc l) (move_to xs k l)) = mset (take (Suc l) xs)"
    unfolding t by simp
qed

lemma move_to_sorted:
  fixes key :: "'a \<Rightarrow> 'k :: linorder"
  assumes "k \<le> l" and "l < length xs" and "sorted (map key (take l xs))"
    and above: "\<forall>j. k \<le> j \<and> j < l \<longrightarrow> key (xs ! l) \<le> key (xs ! j)"
    and below: "0 < k \<longrightarrow> key (xs ! (k - 1)) \<le> key (xs ! l)"
  shows "sorted (map key (take (Suc l) (move_to xs k l)))"
proof -
  have split: "take l xs = take k xs @ take (l - k) (drop k xs)"
    using assms(1) take_add [of k "l - k" xs] by simp
  have s1: "sorted (map key (take k xs))" and s2: "sorted (map key (take (l - k) (drop k xs)))"
    and s12: "\<forall>x\<in>set (take k xs). \<forall>y\<in>set (take (l - k) (drop k xs)). key x \<le> key y"
    using assms(3) unfolding split by (auto simp: sorted_append)
  have lo: "key x \<le> key (xs ! l)" if "x \<in> set (take k xs)" for x
  proof -
    from that obtain j where j: "j < k" "x = xs ! j"
      using assms(1,2) by (auto simp: in_set_conv_nth)
    then have "0 < k" by simp
    have "key (xs ! j) \<le> key (xs ! (k - 1))"
    proof -
      have "map key (take l xs) ! j \<le> map key (take l xs) ! (k - 1)"
        using assms(1,2) j(1) by (intro sorted_nth_mono [OF assms(3)]) simp_all
      then show ?thesis using assms(1,2) j(1) by simp
    qed
    with below \<open>0 < k\<close> j(2) show ?thesis by auto
  qed
  have hi: "key (xs ! l) \<le> key y" if "y \<in> set (take (l - k) (drop k xs))" for y
  proof -
    from that obtain j where "j < l - k" "y = xs ! (k + j)"
      using assms(1,2) by (auto simp: in_set_conv_nth)
    with above show ?thesis by simp
  qed
  show ?thesis
    unfolding move_to_props(2) [OF assms(1,2)]
    using s1 s2 s12 lo hi by (auto simp: sorted_append)
qed

lemma unguarded_linear_insert_sorted:
  fixes key :: "'a \<Rightarrow> 'k :: linorder"
  assumes cmp: "\<And>a b. cmp a b \<longleftrightarrow> key a < key b"
    and l: "l < length xs" and sorted: "sorted (map key (take l xs))"
    and sentinel: "\<exists>j<l. key (xs ! j) \<le> key (xs ! l)"
  shows "\<exists>k\<le>l. unguarded_linear_insert cmp xs l = Some (move_to xs k l) \<and>
           sorted (map key (take (Suc l) (move_to xs k l)))"
proof -
  from sentinel have "\<exists>j<l. \<not> cmp (xs ! l) (xs ! j)"
    by (simp add: cmp not_less)
  from linear_insert_loop_shape [where cmp = cmp and v = "xs ! l", OF l this] obtain k where k: "k \<le> l"
    and run: "linear_insert_loop cmp xs (xs ! l) l = Some (move_to xs k l)"
    and above: "\<forall>j. k \<le> j \<and> j < l \<longrightarrow> cmp (xs ! l) (xs ! j)"
    and below: "0 < k \<longrightarrow> \<not> cmp (xs ! l) (xs ! (k - 1))"
    unfolding move_to_def by blast
  have "sorted (map key (take (Suc l) (move_to xs k l)))"
    using k l sorted above below
    by (intro move_to_sorted) (auto simp: cmp not_less less_imp_le)
  then show ?thesis
    using k l run by (intro exI [of _ k]) (simp add: unguarded_linear_insert_def)
qed

lemma move_to_beyond:
  assumes "k \<le> l" and "l < n" and "n \<le> length xs"
  shows "mset (take n (move_to xs k l)) = mset (take n xs)"
    and "drop n (move_to xs k l) = drop n xs"
proof -
  have l: "l < length xs" using assms by simp
  have n: "n = Suc l + (n - Suc l)" using assms(2) by simp
  have A: "take n (move_to xs k l) =
      take (Suc l) (move_to xs k l) @ take (n - Suc l) (drop (Suc l) (move_to xs k l))"
    by (subst n) (rule take_add)
  have B: "take n xs = take (Suc l) xs @ take (n - Suc l) (drop (Suc l) xs)"
    by (subst n) (rule take_add)
  have "mset (take n (move_to xs k l)) =
      mset (take (Suc l) (move_to xs k l)) +
      mset (take (n - Suc l) (drop (Suc l) (move_to xs k l)))"
    by (subst A) (rule mset_append)
  also have "\<dots> = mset (take (Suc l) xs) + mset (take (n - Suc l) (drop (Suc l) xs))"
    by (simp only: move_to_props(3,4) [OF assms(1) l])
  also have "\<dots> = mset (take n xs)"
    by (metis B mset_append)
  finally show "mset (take n (move_to xs k l)) = mset (take n xs)" .
  have "drop n (move_to xs k l) = drop (n - Suc l) (drop (Suc l) (move_to xs k l))"
    using assms(2) by simp
  also have "\<dots> = drop (n - Suc l) (drop (Suc l) xs)"
    by (simp only: move_to_props(3) [OF assms(1) l])
  also have "\<dots> = drop n xs"
    using assms(2) by simp
  finally show "drop n (move_to xs k l) = drop n xs" .
qed

lemma insertion_step_sorted:
  fixes key :: "'a \<Rightarrow> 'k :: linorder"
  assumes cmp: "\<And>a b. cmp a b \<longleftrightarrow> key a < key b"
    and i: "0 < i" "i < length xs" and sorted: "sorted (map key (take i xs))"
  shows "\<exists>k\<le>i.
           do {
             c \<leftarrow> cmp_at cmp xs i 0;
             if c
             then do {
               val \<leftarrow> elem_at xs i;
               xs1 \<leftarrow> move_backward xs 0 i (i + 1);
               assign_at xs1 0 val
             }
             else unguarded_linear_insert cmp xs i
           } = Some (move_to xs k i) \<and>
           sorted (map key (take (Suc i) (move_to xs k i)))"
proof (cases "key (xs ! i) < key (xs ! 0)")
  case True
  have pos: "0 < length xs" using i by (cases xs) simp_all
  have "take (Suc 0) xs = [xs ! 0]"
    using i by (cases xs) simp_all
  then have "(take (Suc 0) xs @ take i xs @ drop (Suc i) xs)[0 := xs ! i] = move_to xs 0 i"
    by (simp add: move_to_def)
  then have run: "do {
             c \<leftarrow> cmp_at cmp xs i 0;
             if c
             then do {
               val \<leftarrow> elem_at xs i;
               xs1 \<leftarrow> move_backward xs 0 i (i + 1);
               assign_at xs1 0 val
             }
             else unguarded_linear_insert cmp xs i
           } = Some (move_to xs 0 i)"
    using True i pos by (simp add: cmp move_backward_def)
  have "key (xs ! i) \<le> key (xs ! j)" if "j < i" for j
  proof -
    have "map key (take i xs) ! 0 \<le> map key (take i xs) ! j"
      using that i by (intro sorted_nth_mono [OF sorted]) simp_all
    then have "key (xs ! 0) \<le> key (xs ! j)" using that i by simp
    with True show ?thesis by simp
  qed
  then have "sorted (map key (take (Suc i) (move_to xs 0 i)))"
    using i sorted by (intro move_to_sorted) simp_all
  with run show ?thesis by blast
next
  case False
  then have "\<exists>j<i. key (xs ! j) \<le> key (xs ! i)"
    using i(1) by (intro exI [of _ 0]) simp
  moreover have "0 < length xs" using i by (cases xs) simp_all
  ultimately show ?thesis
    using unguarded_linear_insert_sorted [of cmp key, OF cmp i(2) sorted] False i
    by (simp add: cmp)
qed

lemma insertion_loop_sorted:
  fixes key :: "'a \<Rightarrow> 'k :: linorder"
  assumes cmp: "\<And>a b. cmp a b \<longleftrightarrow> key a < key b"
    and "0 < i" and "i \<le> n" and "n \<le> length xs" and "sorted (map key (take i xs))"
  shows "\<exists>ys. insertion_loop cmp xs 0 i n = Some ys \<and> length ys = length xs \<and>
           sorted (map key (take n ys)) \<and> mset (take n ys) = mset (take n xs) \<and>
           drop n ys = drop n xs"
  using assms(2-)
proof (induction "n - i" arbitrary: i xs)
  case 0
  then have "i = n" by simp
  with 0 show ?case
    by (subst insertion_loop.simps) simp
next
  case (Suc d)
  then have i: "i < n" "i < length xs" by simp_all
  from insertion_step_sorted [of cmp key, OF cmp Suc.prems(1) i(2) Suc.prems(4)]
  obtain k where k: "k \<le> i"
    and step: "do {
             c \<leftarrow> cmp_at cmp xs i 0;
             if c
             then do {
               val \<leftarrow> elem_at xs i;
               xs1 \<leftarrow> move_backward xs 0 i (i + 1);
               assign_at xs1 0 val
             }
             else unguarded_linear_insert cmp xs i
           } = Some (move_to xs k i)"
    and sorted: "sorted (map key (take (Suc i) (move_to xs k i)))"
    by blast
  let ?xs = "move_to xs k i"
  have len: "length ?xs = length xs"
    using k i by (simp add: move_to_props)
  have d: "d = n - Suc i" using Suc.hyps(2) by simp
  from Suc.hyps(1) [OF d, of ?xs] i Suc.prems sorted len
  obtain ys where run: "insertion_loop cmp ?xs 0 (Suc i) n = Some ys"
    and ys: "length ys = length xs" "sorted (map key (take n ys))"
      "mset (take n ys) = mset (take n ?xs)" "drop n ys = drop n ?xs"
    by auto
  have "insertion_loop cmp xs 0 i n = Some ys"
  proof -
    have "insertion_loop cmp xs 0 i n =
        do {
          xs' \<leftarrow> do {
             c \<leftarrow> cmp_at cmp xs i 0;
             if c
             then do {
               val \<leftarrow> elem_at xs i;
               xs1 \<leftarrow> move_backward xs 0 i (i + 1);
               assign_at xs1 0 val
             }
             else unguarded_linear_insert cmp xs i
           };
          insertion_loop cmp xs' 0 (i + 1) n
        }"
      using i(1) by (subst insertion_loop.simps) simp
    also have "\<dots> = insertion_loop cmp ?xs 0 (Suc i) n"
      unfolding step by simp
    finally show ?thesis using run by simp
  qed
  then show ?case
    using ys move_to_beyond [OF k i(1) Suc.prems(3)] by simp
qed

lemma unguarded_insertion_sort_sorted:
  fixes key :: "'a \<Rightarrow> 'k :: linorder"
  assumes cmp: "\<And>a b. cmp a b \<longleftrightarrow> key a < key b"
    and "i \<le> n" and "n \<le> length xs" and "sorted (map key (take i xs))"
    and "\<exists>m\<in>set (take i xs). \<forall>y\<in>set (take n xs). key m \<le> key y"
  shows "\<exists>ys. unguarded_insertion_sort cmp xs i n = Some ys \<and> length ys = length xs \<and>
           sorted (map key (take n ys)) \<and> mset (take n ys) = mset (take n xs) \<and>
           drop n ys = drop n xs"
  using assms(2-)
proof (induction "n - i" arbitrary: i xs)
  case 0
  then have "i = n" by simp
  with 0 show ?case
    by (subst unguarded_insertion_sort.simps) simp
next
  case (Suc d)
  then have i: "i < n" "i < length xs" by simp_all
  from Suc.prems(4) obtain m where m: "m \<in> set (take i xs)"
    and least: "\<forall>y\<in>set (take n xs). key m \<le> key y"
    by blast
  from m obtain j where j: "j < i" "xs ! j = m"
    using i(2) by (auto simp: in_set_conv_nth)
  have "xs ! i \<in> set (take n xs)"
    using i Suc.prems(2) by (auto simp: in_set_conv_nth intro!: exI [of _ i])
  with least j have "\<exists>j<i. key (xs ! j) \<le> key (xs ! i)" by blast
  from unguarded_linear_insert_sorted [of cmp key, OF cmp i(2) Suc.prems(3) this]
  obtain k where k: "k \<le> i"
    and step: "unguarded_linear_insert cmp xs i = Some (move_to xs k i)"
    and sorted: "sorted (map key (take (Suc i) (move_to xs k i)))"
    by blast
  let ?xs = "move_to xs k i"
  have len: "length ?xs = length xs"
    using k i by (simp add: move_to_props)
  have same: "mset (take n ?xs) = mset (take n xs)" "drop n ?xs = drop n xs"
    using move_to_beyond [OF k i(1) Suc.prems(2)] by simp_all
  have "set (take (Suc i) ?xs) = set (take (Suc i) xs)"
    using move_to_props(4) [OF k i(2)] by (rule mset_eq_setD)
  moreover have "set (take i xs) \<subseteq> set (take (Suc i) xs)"
    by (rule set_take_subset_set_take) simp
  ultimately have m': "m \<in> set (take (Suc i) ?xs)" using m by blast
  have "set (take n ?xs) = set (take n xs)"
    using same(1) by (rule mset_eq_setD)
  with least m' have inv: "\<exists>m\<in>set (take (Suc i) ?xs). \<forall>y\<in>set (take n ?xs). key m \<le> key y"
    by blast
  have d: "d = n - Suc i" using Suc.hyps(2) by simp
  from Suc.hyps(1) [OF d, of ?xs] i Suc.prems(2) sorted len inv
  obtain ys where run: "unguarded_insertion_sort cmp ?xs (Suc i) n = Some ys"
    and ys: "length ys = length xs" "sorted (map key (take n ys))"
      "mset (take n ys) = mset (take n ?xs)" "drop n ys = drop n ?xs"
    by auto
  have "unguarded_insertion_sort cmp xs i n = Some ys"
    using i(1) step run by (subst unguarded_insertion_sort.simps) simp
  then show ?case
    using ys same by simp
qed

lemma final_insertion_sort_sorted:
  fixes key :: "'a \<Rightarrow> 'k :: linorder"
  assumes cmp: "\<And>a b. cmp a b \<longleftrightarrow> key a < key b"
    and least: "16 < length xs \<Longrightarrow> \<exists>m\<in>set (take 16 xs). \<forall>y\<in>set xs. key m \<le> key y"
  shows "\<exists>ys. final_insertion_sort cmp xs 0 (length xs) = Some ys \<and> mset ys = mset xs \<and>
           sorted (map key ys)"
proof (cases "16 < length xs")
  case False
  show ?thesis
  proof (cases "length xs = 0")
    case True
    then show ?thesis
      by (simp add: final_insertion_sort_def insertion_sort_def)
  next
    case nonempty: False
    have "sorted (map key (take 1 xs))"
      by (cases xs) simp_all
    from insertion_loop_sorted [of cmp key 1 "length xs" xs, OF cmp _ _ _ this] nonempty
    obtain ys where "insertion_loop cmp xs 0 1 (length xs) = Some ys"
      and "length ys = length xs" "sorted (map key (take (length xs) ys))"
      "mset (take (length xs) ys) = mset (take (length xs) xs)"
      by auto
    then show ?thesis
      using False nonempty by (simp add: final_insertion_sort_def insertion_sort_def)
  qed
next
  case True
  have "sorted (map key (take 1 xs))"
    by (cases xs) simp_all
  from insertion_loop_sorted [of cmp key 1 16 xs, OF cmp _ _ _ this] True
  obtain ys1 where run1: "insertion_loop cmp xs 0 1 16 = Some ys1"
    and ys1: "length ys1 = length xs" "sorted (map key (take 16 ys1))"
      "mset (take 16 ys1) = mset (take 16 xs)" "drop 16 ys1 = drop 16 xs"
    by auto
  have all: "mset ys1 = mset xs"
  proof -
    have "mset ys1 = mset (take 16 ys1) + mset (drop 16 ys1)"
      by (metis append_take_drop_id mset_append)
    also have "\<dots> = mset (take 16 xs) + mset (drop 16 xs)"
      using ys1 by simp
    also have "\<dots> = mset xs"
      by (metis append_take_drop_id mset_append)
    finally show ?thesis .
  qed
  from least [OF True] obtain m where "m \<in> set (take 16 xs)" "\<forall>y\<in>set xs. key m \<le> key y"
    by blast
  moreover have "set (take 16 ys1) = set (take 16 xs)"
    using ys1(3) by (rule mset_eq_setD)
  moreover have "set ys1 = set xs"
    using all by (rule mset_eq_setD)
  ultimately have "\<exists>m\<in>set (take 16 ys1). \<forall>y\<in>set (take (length xs) ys1). key m \<le> key y"
    using ys1(1) by auto
  from unguarded_insertion_sort_sorted [of cmp key 16 "length xs" ys1, OF cmp _ _ ys1(2) this]
    True ys1(1)
  obtain ys where run2: "unguarded_insertion_sort cmp ys1 16 (length xs) = Some ys"
    and ys: "length ys = length xs" "sorted (map key (take (length xs) ys))"
      "mset (take (length xs) ys) = mset (take (length xs) ys1)"
    by auto
  show ?thesis
    using True run1 run2 ys ys1(1) all
    by (simp add: final_insertion_sort_def insertion_sort_def)
qed

subsection \<open>Partition\<close>

lemma scan_up_stops:
  fixes key :: "'a \<Rightarrow> 'k :: linorder"
  assumes cmp: "\<And>a b. cmp a b \<longleftrightarrow> key a < key b"
    and "f \<le> s" and "s < length xs" and "p < length xs" and "key (xs ! p) \<le> key (xs ! s)"
  shows "\<exists>f'. scan_up cmp xs f p = Some f' \<and> f \<le> f' \<and> f' \<le> s \<and>
           (\<forall>i. f \<le> i \<and> i < f' \<longrightarrow> key (xs ! i) < key (xs ! p)) \<and>
           key (xs ! p) \<le> key (xs ! f')"
  using assms(2-)
proof (induction "s - f" arbitrary: f)
  case 0
  then have "f = s" by simp
  with 0 show ?case
    by (subst scan_up.simps) (auto simp: cmp)
next
  case (Suc d)
  then have f: "f < length xs" by simp
  show ?case
  proof (cases "key (xs ! f) < key (xs ! p)")
    case False
    then show ?thesis
      using f Suc.prems by (subst scan_up.simps) (auto simp: cmp)
  next
    case True
    have d: "d = s - Suc f" using Suc.hyps(2) by simp
    have "Suc f \<le> s" using Suc.hyps(2) by simp
    from Suc.hyps(1) [OF d this Suc.prems(2,3,4)]
    obtain f' where run: "scan_up cmp xs (Suc f) p = Some f'"
      and f': "Suc f \<le> f'" "f' \<le> s"
      and below: "\<forall>i. Suc f \<le> i \<and> i < f' \<longrightarrow> key (xs ! i) < key (xs ! p)"
      and stop: "key (xs ! p) \<le> key (xs ! f')"
      by blast
    have "scan_up cmp xs f p = Some f'"
      using True f Suc.prems(3) run by (subst scan_up.simps) (simp add: cmp)
    moreover have "\<forall>i. f \<le> i \<and> i < f' \<longrightarrow> key (xs ! i) < key (xs ! p)"
    proof (intro allI impI)
      fix i assume "f \<le> i \<and> i < f'"
      then show "key (xs ! i) < key (xs ! p)"
        using True below by (cases "i = f") auto
    qed
    ultimately show ?thesis
      using f' stop by (intro exI [of _ f']) simp
  qed
qed

lemma scan_down_stops:
  fixes key :: "'a \<Rightarrow> 'k :: linorder"
  assumes cmp: "\<And>a b. cmp a b \<longleftrightarrow> key a < key b"
    and "p \<le> l" and "l < length xs"
  shows "\<exists>l'. scan_down cmp xs p l = Some l' \<and> p \<le> l' \<and> l' \<le> l \<and>
           (\<forall>j. l' < j \<and> j \<le> l \<longrightarrow> key (xs ! p) < key (xs ! j)) \<and>
           key (xs ! l') \<le> key (xs ! p)"
  using assms(2-)
proof (induction l)
  case 0
  then show ?case by (simp add: cmp)
next
  case (Suc l)
  have p: "p < length xs" using Suc.prems by simp
  show ?case
  proof (cases "key (xs ! p) < key (xs ! Suc l)")
    case False
    then show ?thesis
      using p Suc.prems by (auto simp: cmp)
  next
    case True
    then have "p \<noteq> Suc l" by auto
    then have "p \<le> l" "l < length xs" using Suc.prems by simp_all
    from Suc.IH [OF this]
    obtain l' where run: "scan_down cmp xs p l = Some l'"
      and l': "p \<le> l'" "l' \<le> l"
      and above: "\<forall>j. l' < j \<and> j \<le> l \<longrightarrow> key (xs ! p) < key (xs ! j)"
      and stop: "key (xs ! l') \<le> key (xs ! p)"
      by blast
    have "scan_down cmp xs p (Suc l) = Some l'"
      using True p Suc.prems(2) run by (simp add: cmp)
    moreover have "\<forall>j. l' < j \<and> j \<le> Suc l \<longrightarrow> key (xs ! p) < key (xs ! j)"
    proof (intro allI impI)
      fix j assume "l' < j \<and> j \<le> Suc l"
      then show "key (xs ! p) < key (xs ! j)"
        using True above by (cases "j = Suc l") auto
    qed
    ultimately show ?thesis
      using l' stop by (intro exI [of _ l']) simp
  qed
qed

lemma mset_swap_nth:
  "a < length xs \<Longrightarrow> b < length xs \<Longrightarrow> mset (xs[a := xs ! b, b := xs ! a]) = mset xs"
  by (simp add: mset_swap)

lemma unguarded_partition_correct:
  fixes key :: "'a \<Rightarrow> 'k :: linorder"
  assumes cmp: "\<And>a b. cmp a b \<longleftrightarrow> key a < key b"
    and "p < f" and "p < l" and "l \<le> L" and "L \<le> length xs"
    and "\<forall>i. p < i \<and> i < f \<longrightarrow> key (xs ! i) \<le> key (xs ! p)"
    and "\<forall>j. l \<le> j \<and> j < L \<longrightarrow> key (xs ! p) \<le> key (xs ! j)"
    and "\<exists>s. f \<le> s \<and> s < L \<and> key (xs ! p) \<le> key (xs ! s)"
  shows "\<exists>ys cut. unguarded_partition cmp xs f l p = Some (ys, cut) \<and> p < cut \<and> cut < L \<and>
           length ys = length xs \<and> mset ys = mset xs \<and>
           take (Suc p) ys = take (Suc p) xs \<and> drop L ys = drop L xs \<and>
           (\<forall>i. p < i \<and> i < cut \<longrightarrow> key (ys ! i) \<le> key (ys ! p)) \<and>
           (\<forall>j. cut \<le> j \<and> j < L \<longrightarrow> key (ys ! p) \<le> key (ys ! j))"
  using assms(2-)
proof (induction l arbitrary: xs f rule: less_induct)
  case (less l)
  note left = less.prems(5) and right = less.prems(6)
  from less.prems(7) obtain s where s: "f \<le> s" "s < L" "key (xs ! p) \<le> key (xs ! s)"
    by blast
  have pl: "p < length xs" using less.prems by simp
  have sl: "s < length xs" using s less.prems by simp
  from scan_up_stops [of cmp key, OF cmp s(1) sl pl s(3)]
  obtain f' where up: "scan_up cmp xs f p = Some f'"
    and f': "f \<le> f'" "f' \<le> s"
    and passed_up: "\<forall>i. f \<le> i \<and> i < f' \<longrightarrow> key (xs ! i) < key (xs ! p)"
    and stop_up: "key (xs ! p) \<le> key (xs ! f')"
    by blast
  have l0: "l \<noteq> 0" "p \<le> l - 1" "l - 1 < length xs"
    using less.prems by simp_all
  from scan_down_stops [of cmp key, OF cmp l0(2,3)]
  obtain l' where down: "scan_down cmp xs p (l - 1) = Some l'"
    and l': "p \<le> l'" "l' \<le> l - 1"
    and passed_down: "\<forall>j. l' < j \<and> j \<le> l - 1 \<longrightarrow> key (xs ! p) < key (xs ! j)"
    and stop_down: "key (xs ! l') \<le> key (xs ! p)"
    by blast
  have lower: "key (xs ! i) \<le> key (xs ! p)" if "p < i" "i < f'" for i
  proof (cases "i < f")
    case True
    then show ?thesis using left that by simp
  next
    case False
    then show ?thesis using passed_up that by (simp add: less_imp_le)
  qed
  have upper: "key (xs ! p) \<le> key (xs ! j)" if "l' < j" "j < L" for j
  proof (cases "j < l")
    case True
    then show ?thesis using passed_down that by (simp add: less_imp_le)
  next
    case False
    then show ?thesis using right that by simp
  qed
  show ?case
  proof (cases "f' < l'")
    case False
    have "unguarded_partition cmp xs f l p = Some (xs, f')"
      using up down l0(1) False by (subst unguarded_partition.simps) simp
    moreover have "key (xs ! p) \<le> key (xs ! j)" if "f' \<le> j" "j < L" for j
      using that False stop_up upper [of j] by (cases "j = f'") auto
    ultimately show ?thesis
      using lower less.prems(1) f' s(2) by (intro exI [of _ xs] exI [of _ f']) auto
  next
    case True
    define xs' where "xs' = xs[f' := xs ! l', l' := xs ! f']"
    have bounds: "f' < length xs" "l' < length xs" "p < f'" "l' < L" "l' < l"
      using True l' l0 less.prems f' by simp_all
    have nth': "xs' ! i = (if i = l' then xs ! f' else if i = f' then xs ! l' else xs ! i)"
      if "i < length xs" for i
      using that bounds by (simp add: xs'_def nth_list_update)
    have len': "length xs' = length xs" by (simp add: xs'_def)
    have pivot': "xs' ! p = xs ! p"
      using nth' [OF pl] bounds True by simp
    have c1: "p < Suc f'" using bounds by simp
    have c2: "p < l'" using bounds True by simp
    have c3: "l' \<le> L" using bounds by simp
    have c4: "L \<le> length xs'" using less.prems len' by simp
    have c5: "\<forall>i. p < i \<and> i < Suc f' \<longrightarrow> key (xs' ! i) \<le> key (xs' ! p)"
    proof (intro allI impI)
      fix i assume i: "p < i \<and> i < Suc f'"
      then have "i < length xs" using bounds by simp
      from nth' [OF this] i True lower [of i] stop_down
      show "key (xs' ! i) \<le> key (xs' ! p)"
        unfolding pivot' by (cases "i = f'") auto
    qed
    have c6: "\<forall>j. l' \<le> j \<and> j < L \<longrightarrow> key (xs' ! p) \<le> key (xs' ! j)"
    proof (intro allI impI)
      fix j assume j: "l' \<le> j \<and> j < L"
      then have "j < length xs" using less.prems by simp
      from nth' [OF this] j True upper [of j] stop_up
      show "key (xs' ! p) \<le> key (xs' ! j)"
        unfolding pivot' by (cases "j = l'") auto
    qed
    have c7: "\<exists>s. Suc f' \<le> s \<and> s < L \<and> key (xs' ! p) \<le> key (xs' ! s)"
      using True bounds nth' [OF bounds(2)] stop_up
      unfolding pivot' by (intro exI [of _ l']) simp
    from less.IH [OF bounds(5) c1 c2 c3 c4 c5 c6 c7]
    obtain ys cut where
      run: "unguarded_partition cmp xs' (Suc f') l' p = Some (ys, cut)"
      and res: "p < cut" "cut < L" "length ys = length xs'" "mset ys = mset xs'"
        "take (Suc p) ys = take (Suc p) xs'" "drop L ys = drop L xs'"
        "\<forall>i. p < i \<and> i < cut \<longrightarrow> key (ys ! i) \<le> key (ys ! p)"
        "\<forall>j. cut \<le> j \<and> j < L \<longrightarrow> key (ys ! p) \<le> key (ys ! j)"
      by blast
    have "unguarded_partition cmp xs f l p = Some (ys, cut)"
      using up down l0(1) True bounds run
      by (subst unguarded_partition.simps) (simp add: xs'_def)
    moreover have "mset xs' = mset xs"
      unfolding xs'_def using bounds by (intro mset_swap_nth) simp_all
    moreover have "take (Suc p) xs' = take (Suc p) xs"
      using bounds True by (simp add: xs'_def)
    moreover have "drop L xs' = drop L xs"
      using bounds True s f' by (simp add: xs'_def)
    ultimately show ?thesis
      using res len' by (intro exI [of _ ys] exI [of _ cut]) simp
  qed
qed

lemma move_median_to_first_result:
  fixes key :: "'a \<Rightarrow> 'k :: linorder"
  assumes cmp: "\<And>a b. cmp a b \<longleftrightarrow> key a < key b"
    and "r < a" and "a < b" and "b < c" and "c < length xs"
  shows "\<exists>m t. move_median_to_first cmp xs r a b c = Some (xs[r := xs ! m, m := xs ! r]) \<and>
           m \<in> {a, b, c} \<and> t \<in> {a, b, c} \<and> t \<noteq> m \<and> key (xs ! m) \<le> key (xs ! t)"
proof -
  have lens: "r < length xs" "a < length xs" "b < length xs" "c < length xs"
    using assms by simp_all
  consider (ab_bc) "key (xs ! a) < key (xs ! b)" "key (xs ! b) < key (xs ! c)"
    | (ab_ac) "key (xs ! a) < key (xs ! b)" "\<not> key (xs ! b) < key (xs ! c)"
        "key (xs ! a) < key (xs ! c)"
    | (ab_a) "key (xs ! a) < key (xs ! b)" "\<not> key (xs ! b) < key (xs ! c)"
        "\<not> key (xs ! a) < key (xs ! c)"
    | (ac) "\<not> key (xs ! a) < key (xs ! b)" "key (xs ! a) < key (xs ! c)"
    | (bc) "\<not> key (xs ! a) < key (xs ! b)" "\<not> key (xs ! a) < key (xs ! c)"
        "key (xs ! b) < key (xs ! c)"
    | (b) "\<not> key (xs ! a) < key (xs ! b)" "\<not> key (xs ! a) < key (xs ! c)"
        "\<not> key (xs ! b) < key (xs ! c)"
    by blast
  then show ?thesis
  proof cases
    case ab_bc
    then show ?thesis
      using lens assms(2-5)
      by (intro exI [of _ b] exI [of _ c]) (simp add: move_median_to_first_def cmp)
  next
    case ab_ac
    then show ?thesis
      using lens assms(2-5)
      by (intro exI [of _ c] exI [of _ b]) (simp add: move_median_to_first_def cmp)
  next
    case ab_a
    then show ?thesis
      using lens assms(2-5)
      by (intro exI [of _ a] exI [of _ b]) (simp add: move_median_to_first_def cmp)
  next
    case ac
    then show ?thesis
      using lens assms(2-5)
      by (intro exI [of _ a] exI [of _ c]) (simp add: move_median_to_first_def cmp)
  next
    case bc
    then show ?thesis
      using lens assms(2-5)
      by (intro exI [of _ c] exI [of _ a]) (simp add: move_median_to_first_def cmp)
  next
    case b
    then show ?thesis
      using lens assms(2-5)
      by (intro exI [of _ b] exI [of _ a]) (simp add: move_median_to_first_def cmp)
  qed
qed

lemma unguarded_partition_pivot_correct:
  fixes key :: "'a \<Rightarrow> 'k :: linorder"
  assumes cmp: "\<And>a b. cmp a b \<longleftrightarrow> key a < key b"
    and size: "first + 4 \<le> lst" and lst: "lst \<le> length xs"
  shows "\<exists>ys cut. unguarded_partition_pivot cmp xs first lst = Some (ys, cut) \<and>
           first < cut \<and> cut < lst \<and> length ys = length xs \<and> mset ys = mset xs \<and>
           take first ys = take first xs \<and> drop lst ys = drop lst xs \<and>
           (\<forall>i. first \<le> i \<and> i < cut \<longrightarrow> key (ys ! i) \<le> key (ys ! first)) \<and>
           (\<forall>j. cut \<le> j \<and> j < lst \<longrightarrow> key (ys ! first) \<le> key (ys ! j))"
proof -
  define mid where "mid = first + (lst - first) div 2"
  have order: "first < first + 1" "first + 1 < mid" "mid < lst - 1" "lst - 1 < length xs"
    using size lst by (simp_all add: mid_def)
  from move_median_to_first_result [of cmp key, OF cmp order]
  obtain m t where
    median: "move_median_to_first cmp xs first (first + 1) mid (lst - 1) =
        Some (xs[first := xs ! m, m := xs ! first])"
    and m: "m \<in> {first + 1, mid, lst - 1}" and t: "t \<in> {first + 1, mid, lst - 1}" "t \<noteq> m"
    and le: "key (xs ! m) \<le> key (xs ! t)"
    by blast
  define xs1 where "xs1 = xs[first := xs ! m, m := xs ! first]"
  have mb: "first < m" "m < lst" "m < length xs" and tb: "first < t" "t < lst" "t < length xs"
    using m t order size lst by auto
  have len1: "length xs1 = length xs" by (simp add: xs1_def)
  have p1: "xs1 ! first = xs ! m"
    using mb by (simp add: xs1_def nth_list_update)
  have t1: "xs1 ! t = xs ! t"
    using mb tb t(2) by (simp add: xs1_def nth_list_update)
  have c1: "first < first + 1" by simp
  have c2: "first < lst" using size by simp
  have c4: "lst \<le> length xs1" using lst len1 by simp
  have c5: "\<forall>i. first < i \<and> i < first + 1 \<longrightarrow> key (xs1 ! i) \<le> key (xs1 ! first)" by auto
  have c6: "\<forall>j. lst \<le> j \<and> j < lst \<longrightarrow> key (xs1 ! first) \<le> key (xs1 ! j)" by auto
  have c7: "\<exists>s. first + 1 \<le> s \<and> s < lst \<and> key (xs1 ! first) \<le> key (xs1 ! s)"
    using tb le by (intro exI [of _ t]) (simp add: p1 t1)
  from unguarded_partition_correct [of cmp key, OF cmp c1 c2 order_refl c4 c5 c6 c7]
  obtain ys cut where
    run: "unguarded_partition cmp xs1 (first + 1) lst first = Some (ys, cut)"
    and res: "first < cut" "cut < lst" "length ys = length xs1" "mset ys = mset xs1"
      "take (Suc first) ys = take (Suc first) xs1" "drop lst ys = drop lst xs1"
      "\<forall>i. first < i \<and> i < cut \<longrightarrow> key (ys ! i) \<le> key (ys ! first)"
      "\<forall>j. cut \<le> j \<and> j < lst \<longrightarrow> key (ys ! first) \<le> key (ys ! j)"
    by blast
  have "unguarded_partition_pivot cmp xs first lst = Some (ys, cut)"
    using median run
    by (simp add: unguarded_partition_pivot_def mid_def [symmetric] xs1_def [symmetric])
  moreover have "mset xs1 = mset xs"
    unfolding xs1_def using mb size lst by (intro mset_swap_nth) simp_all
  moreover have "take first ys = take first xs"
  proof -
    have "take first ys = take first (take (Suc first) ys)" by (simp add: min_def)
    also have "\<dots> = take first (take (Suc first) xs1)" by (simp only: res(5))
    also have "\<dots> = take first xs" using mb by (simp add: min_def xs1_def)
    finally show ?thesis .
  qed
  moreover have "drop lst xs1 = drop lst xs"
    using mb size by (simp add: xs1_def)
  moreover have "\<forall>i. first \<le> i \<and> i < cut \<longrightarrow> key (ys ! i) \<le> key (ys ! first)"
  proof (intro allI impI)
    fix i assume "first \<le> i \<and> i < cut"
    then show "key (ys ! i) \<le> key (ys ! first)"
      using res(7) by (cases "i = first") auto
  qed
  ultimately show ?thesis
    using res len1 by (intro exI [of _ ys] exI [of _ cut]) simp
qed

subsection \<open>Heap sort\<close>

lemma parent_less: "0 < i \<Longrightarrow> (i - 1) div 2 < (i :: nat)"
  by linarith

lemma desc_refl: "desc tp tp"
  by (subst desc.simps) simp

lemma desc_le: "desc tp h \<Longrightarrow> tp \<le> h"
  by (subst (asm) desc.simps) (auto split: if_splits)

lemma desc_parent: "desc tp h \<Longrightarrow> tp < h \<Longrightarrow> desc tp ((h - 1) div 2)"
  by (subst (asm) desc.simps) simp

lemma desc_child: "desc tp h \<Longrightarrow> 0 < c \<Longrightarrow> (c - 1) div 2 = h \<Longrightarrow> desc tp c"
proof -
  assume d: "desc tp h" and c: "0 < c" "(c - 1) div 2 = h"
  have "h < c" using c by linarith
  with desc_le [OF d] have "\<not> c \<le> tp" by simp
  then show "desc tp c"
    using d c by (subst desc.simps) simp
qed

lemma heap_fromD:
  "heap_from key xs b len r \<Longrightarrow> 0 < i \<Longrightarrow> i < len \<Longrightarrow> r \<le> (i - 1) div 2 \<Longrightarrow>
     key (xs ! (b + i)) \<le> key (xs ! (b + (i - 1) div 2))"
  by (simp add: heap_from_def)

lemma heap_from_mono: "heap_from key xs b len r \<Longrightarrow> r \<le> r' \<Longrightarrow> heap_from key xs b len r'"
  by (simp add: heap_from_def)

lemma mset_move_hole:
  assumes "i < length xs" and "j < length xs" and "i \<noteq> j"
  shows "mset (xs[i := xs ! j, j := v]) = mset (xs[i := v])"
proof -
  let ?ys = "xs[i := v]"
  have "xs[i := xs ! j, j := v] = ?ys[i := ?ys ! j, j := ?ys ! i]"
    using assms by simp
  moreover have "mset (?ys[i := ?ys ! j, j := ?ys ! i]) = mset ?ys"
    using assms by (intro mset_swap) simp_all
  ultimately show ?thesis by simp
qed

lemma heap_move_child_up:
  fixes key :: "'a \<Rightarrow> 'k :: linorder"
  assumes bound: "b + len \<le> length xs" and h: "h < len" and hole_le: "hole \<le> h"
    and heap: "heap_from key xs b len (if h = hole then Suc hole else hole)"
    and c: "0 < c" "c < len" "(c - 1) div 2 = h"
    and larger: "\<forall>i. 0 < i \<and> i < len \<and> (i - 1) div 2 = h \<longrightarrow>
                   key (xs ! (b + i)) \<le> key (xs ! (b + c))"
  shows "heap_from key (xs[b + h := xs ! (b + c)]) b len hole"
  unfolding heap_from_def
proof (intro allI impI)
  let ?xs = "xs[b + h := xs ! (b + c)]"
  have at_h: "?xs ! (b + h) = xs ! (b + c)"
    using bound h by simp
  have at_other: "?xs ! (b + j) = xs ! (b + j)" if "j \<noteq> h" for j
    using that by simp
  fix i assume i: "0 < i \<and> i < len \<and> hole \<le> (i - 1) div 2"
  then have i1: "0 < i" and i2: "i < len" and i3: "hole \<le> (i - 1) div 2" by simp_all
  have pi: "(i - 1) div 2 < i" using i1 by (rule parent_less)
  consider (child) "(i - 1) div 2 = h" | (self) "i = h" | (other) "i \<noteq> h" "(i - 1) div 2 \<noteq> h"
    by blast
  then show "key (?xs ! (b + i)) \<le> key (?xs ! (b + (i - 1) div 2))"
  proof cases
    case child
    then have ne: "i \<noteq> h" using pi by simp
    have "key (xs ! (b + i)) \<le> key (xs ! (b + c))"
      using larger i1 i2 child by blast
    then show ?thesis
      by (simp only: child at_h at_other [OF ne])
  next
    case self
    have ph: "(h - 1) div 2 \<noteq> h" "hole \<le> (h - 1) div 2" "0 < h"
      using pi i1 i3 unfolding self by auto
    then have "h \<noteq> hole" using pi self by simp
    with heap have hp: "heap_from key xs b len hole" by simp
    have "hole \<le> (c - 1) div 2" using c(3) hole_le by simp
    with hp c(1) c(2) have "key (xs ! (b + c)) \<le> key (xs ! (b + (c - 1) div 2))"
      by (rule heap_fromD)
    then have "key (xs ! (b + c)) \<le> key (xs ! (b + h))" by (simp only: c(3))
    also have "\<dots> \<le> key (xs ! (b + (h - 1) div 2))"
      using hp ph(3) h ph(2) by (rule heap_fromD)
    finally show ?thesis
      by (simp only: self at_h at_other [OF ph(1)])
  next
    case other
    have "key (xs ! (b + i)) \<le> key (xs ! (b + (i - 1) div 2))"
    proof (cases "h = hole")
      case True
      with heap have hp: "heap_from key xs b len (Suc hole)" by simp
      have "Suc hole \<le> (i - 1) div 2" using i3 other True by simp
      with hp i1 i2 show ?thesis by (rule heap_fromD)
    next
      case False
      with heap have "heap_from key xs b len hole" by simp
      then show ?thesis using i1 i2 i3 by (rule heap_fromD)
    qed
    then show ?thesis
      by (simp only: at_other [OF other(1)] at_other [OF other(2)])
  qed
qed

lemma adjust_heap_loop_correct:
  fixes key :: "'a \<Rightarrow> 'k :: linorder"
  assumes cmp: "\<And>a b. cmp a b \<longleftrightarrow> key a < key b"
    and "b + len \<le> length xs" and "h < len" and "desc hole h"
    and "heap_from key xs b len (if h = hole then Suc hole else hole)"
  shows "\<exists>ys h'. adjust_heap_loop cmp xs b h len = Some (ys, h') \<and> length ys = length xs \<and>
           h' < len \<and> desc hole h' \<and> (len - 1) div 2 \<le> h' \<and>
           heap_from key ys b len (if h' = hole then Suc hole else hole) \<and>
           (\<forall>v. mset (ys[b + h' := v]) = mset (xs[b + h := v])) \<and>
           take (b + h) ys = take (b + h) xs \<and> drop (b + len) ys = drop (b + len) xs"
  using assms(2-)
proof (induction "len - h" arbitrary: xs h rule: less_induct)
  case less
  note bound = less.prems(1) and h = less.prems(2) and d = less.prems(3)
    and heap = less.prems(4)
  show ?case
  proof (cases "h < (len - 1) div 2")
    case False
    then show ?thesis
      using less.prems by (subst adjust_heap_loop.simps) simp
  next
    case True
    define c where "c = 2 * (h + 1)"
    define c' where "c' = (if key (xs ! (b + c)) < key (xs ! (b + (c - 1))) then c - 1 else c)"
    define xs' where "xs' = xs[b + h := xs ! (b + c')]"
    have c: "c < len" "c - 1 < len" using True by (simp_all add: c_def)
    have c'cases: "c' = 2 * h + 1 \<or> c' = 2 * h + 2" by (simp add: c'_def c_def)
    have c': "c' < len" "h < c'" "0 < c'" "(c' - 1) div 2 = h"
      using c c'cases by (auto simp: c_def)
    have larger: "key (xs ! (b + i)) \<le> key (xs ! (b + c'))" if "i = 2 * h + 1 \<or> i = 2 * h + 2" for i
      using that by (auto simp: c'_def c_def)
    have lens: "b + h < length xs" "b + c < length xs" "b + (c - 1) < length xs"
      "b + c' < length xs"
      using bound h c c' by simp_all
    have hole_le: "hole \<le> h" using d by (rule desc_le)
    have len': "length xs' = length xs" by (simp add: xs'_def)
    have nth': "xs' ! (b + i) = (if i = h then xs ! (b + c') else xs ! (b + i))" if "i < len" for i
      using that bound by (simp add: xs'_def nth_list_update)
    have "\<forall>i. 0 < i \<and> i < len \<and> (i - 1) div 2 = h \<longrightarrow>
        key (xs ! (b + i)) \<le> key (xs ! (b + c'))"
    proof (intro allI impI)
      fix i assume i: "0 < i \<and> i < len \<and> (i - 1) div 2 = h"
      then have "i = 2 * h + 1 \<or> i = 2 * h + 2" by linarith
      then show "key (xs ! (b + i)) \<le> key (xs ! (b + c'))" by (rule larger)
    qed
    with bound h hole_le heap c'(3,1,4) have heap': "heap_from key xs' b len hole"
      unfolding xs'_def by (rule heap_move_child_up)
    have "c' \<noteq> hole" using c'(2) hole_le by simp
    with heap' have heap'': "heap_from key xs' b len (if c' = hole then Suc hole else hole)"
      by simp
    have m: "len - c' < len - h" using c' h by simp
    have bound': "b + len \<le> length xs'" using bound len' by simp
    have d': "desc hole c'" using d c'(3,4) by (rule desc_child)
    from less.hyps [OF m bound' c'(1) d' heap'']
    obtain ys h' where
      run: "adjust_heap_loop cmp xs' b c' len = Some (ys, h')"
      and res: "length ys = length xs'" "h' < len" "desc hole h'" "(len - 1) div 2 \<le> h'"
        "heap_from key ys b len (if h' = hole then Suc hole else hole)"
        "\<forall>v. mset (ys[b + h' := v]) = mset (xs'[b + c' := v])"
        "take (b + c') ys = take (b + c') xs'" "drop (b + len) ys = drop (b + len) xs'"
      by blast
    have e1: "cmp_at cmp xs (b + c) (b + (c - 1)) =
        Some (key (xs ! (b + c)) < key (xs ! (b + (c - 1))))"
      using lens by (simp add: cmp)
    have e2: "elem_at xs (b + c') = Some (xs ! (b + c'))"
      using lens by simp
    have e3: "assign_at xs (b + h) (xs ! (b + c')) = Some xs'"
      using lens by (simp add: xs'_def)
    have "adjust_heap_loop cmp xs b h len = adjust_heap_loop cmp xs' b c' len"
      by (subst adjust_heap_loop.simps)
        (simp only: True if_True Let_def c_def [symmetric] e1 Option.bind.simps
          c'_def [symmetric] e2 e3)
    with run have "adjust_heap_loop cmp xs b h len = Some (ys, h')"
      by simp
    moreover have "mset (ys[b + h' := v]) = mset (xs[b + h := v])" for v
    proof -
      have "mset (ys[b + h' := v]) = mset (xs'[b + c' := v])" using res(6) by blast
      also have "\<dots> = mset (xs[b + h := v])"
        unfolding xs'_def using lens c'(2) by (intro mset_move_hole) simp_all
      finally show ?thesis .
    qed
    moreover have "take (b + h) ys = take (b + h) xs"
    proof -
      have "take (b + h) ys = take (b + h) (take (b + c') ys)"
        using c'(2) by (simp add: min_def)
      also have "\<dots> = take (b + h) (take (b + c') xs')" by (simp only: res(7))
      also have "\<dots> = take (b + h) xs"
        using c'(2) by (simp add: min_def xs'_def)
      finally show ?thesis .
    qed
    moreover have "drop (b + len) xs' = drop (b + len) xs"
      using h by (simp add: xs'_def)
    ultimately show ?thesis
      using res len' by (intro exI [of _ ys] exI [of _ h']) simp
  qed
qed

lemma push_heap_correct:
  fixes key :: "'a \<Rightarrow> 'k :: linorder"
  assumes cmp: "\<And>a b. cmp a b \<longleftrightarrow> key a < key b"
    and "b + len \<le> length xs" and "h < len" and "desc tp h"
    and "heap_from key xs b len tp"
    and "\<forall>c. 0 < c \<and> c < len \<and> (c - 1) div 2 = h \<longrightarrow> key (xs ! (b + c)) \<le> key v"
  shows "\<exists>ys. push_heap cmp xs b h tp v = Some ys \<and> length ys = length xs \<and>
           heap_from key ys b len tp \<and> mset ys = mset (xs[b + h := v]) \<and>
           take (b + tp) ys = take (b + tp) xs \<and> drop (b + len) ys = drop (b + len) xs"
  using assms(2-)
proof (induction h arbitrary: xs rule: less_induct)
  case (less h)
  note bound = less.prems(1) and h = less.prems(2) and d = less.prems(3)
    and heap = less.prems(4) and kids = less.prems(5)
  define p where "p = (h - 1) div 2"
  have tp_le: "tp \<le> h" using d by (rule desc_le)
  have hl: "b + h < length xs" using bound h by simp
  have p_le: "p \<le> h" by (simp add: p_def)
  have e1: "elem_at xs (b + p) = Some (xs ! (b + p))" using hl p_le by simp
  show ?case
  proof (cases "tp < h \<and> key (xs ! (b + p)) < key v")
    case False
    let ?ys = "xs[b + h := v]"
    have "push_heap cmp xs b h tp v = assign_at xs (b + h) v"
    proof (cases "tp < h")
      case True
      with False have nc: "cmp (xs ! (b + p)) v = False" by (simp add: cmp)
      show ?thesis
        by (subst push_heap.simps)
          (simp only: Let_def p_def [symmetric] e1 True nc if_True if_False Option.bind.simps)
    next
      case False
      show ?thesis
        by (subst push_heap.simps) (simp only: Let_def False if_False)
    qed
    then have run: "push_heap cmp xs b h tp v = Some ?ys"
      using hl by simp
    have at_h: "?ys ! (b + h) = v"
      using hl by simp
    have at_other: "?ys ! (b + j) = xs ! (b + j)" if "j \<noteq> h" for j
      using that by simp
    have "heap_from key ?ys b len tp"
      unfolding heap_from_def
    proof (intro allI impI)
      fix i assume i: "0 < i \<and> i < len \<and> tp \<le> (i - 1) div 2"
      then have i1: "0 < i" and i2: "i < len" and i3: "tp \<le> (i - 1) div 2" by simp_all
      have pi: "(i - 1) div 2 < i" using i1 by (rule parent_less)
      consider (child) "(i - 1) div 2 = h" | (self) "i = h" | (other) "i \<noteq> h" "(i - 1) div 2 \<noteq> h"
        by blast
      then show "key (?ys ! (b + i)) \<le> key (?ys ! (b + (i - 1) div 2))"
      proof cases
        case child
        then have ne: "i \<noteq> h" using pi by simp
        have "key (xs ! (b + i)) \<le> key v" using kids i1 i2 child by blast
        then show ?thesis by (simp only: child at_h at_other [OF ne])
      next
        case self
        have ph: "p \<noteq> h" "tp \<le> p" "p < h"
          using pi i3 unfolding self p_def [symmetric] by auto
        then have "tp < h" by simp
        with False have "key v \<le> key (xs ! (b + p))" by simp
        then show ?thesis
          by (simp only: self p_def [symmetric] at_h at_other [OF ph(1)])
      next
        case other
        have "key (xs ! (b + i)) \<le> key (xs ! (b + (i - 1) div 2))"
          using heap i1 i2 i3 by (rule heap_fromD)
        then show ?thesis
          by (simp only: at_other [OF other(1)] at_other [OF other(2)])
      qed
    qed
    moreover have "take (b + tp) ?ys = take (b + tp) xs"
      using tp_le by simp
    moreover have "drop (b + len) ?ys = drop (b + len) xs"
      using h by simp
    ultimately show ?thesis
      using run by (intro exI [of _ ?ys]) simp
  next
    case True
    then have h0: "0 < h" by simp
    have e4: "tp < h" using True by simp
    have p1: "p < h" using parent_less [OF h0] by (simp only: p_def)
    have p2: "desc tp p" unfolding p_def using d e4 by (rule desc_parent)
    have p3: "p < len" using p1 h by simp
    have ne: "p \<noteq> h" using p1 by simp
    have tp_p: "tp \<le> p" using p2 by (rule desc_le)
    have pl: "b + p < length xs" using bound p3 by simp
    define xs' where "xs' = xs[b + h := xs ! (b + p)]"
    have len': "length xs' = length xs" by (simp add: xs'_def)
    have at_h: "xs' ! (b + h) = xs ! (b + p)"
      using hl by (simp add: xs'_def)
    have at_other: "xs' ! (b + j) = xs ! (b + j)" if "j \<noteq> h" for j
      using that by (simp add: xs'_def)
    have "tp \<le> (h - 1) div 2" using tp_p by (simp only: p_def)
    with heap h0 h have "key (xs ! (b + h)) \<le> key (xs ! (b + (h - 1) div 2))"
      by (rule heap_fromD)
    then have edge_h: "key (xs ! (b + h)) \<le> key (xs ! (b + p))"
      by (simp only: p_def)
    have heap': "heap_from key xs' b len tp"
      unfolding heap_from_def
    proof (intro allI impI)
      fix i assume i: "0 < i \<and> i < len \<and> tp \<le> (i - 1) div 2"
      then have i1: "0 < i" and i2: "i < len" and i3: "tp \<le> (i - 1) div 2" by simp_all
      have pi: "(i - 1) div 2 < i" using i1 by (rule parent_less)
      have edge_i: "key (xs ! (b + i)) \<le> key (xs ! (b + (i - 1) div 2))"
        using heap i1 i2 i3 by (rule heap_fromD)
      consider (child) "(i - 1) div 2 = h" | (self) "i = h" | (other) "i \<noteq> h" "(i - 1) div 2 \<noteq> h"
        by blast
      then show "key (xs' ! (b + i)) \<le> key (xs' ! (b + (i - 1) div 2))"
      proof cases
        case child
        then have ni: "i \<noteq> h" using pi by simp
        have "key (xs ! (b + i)) \<le> key (xs ! (b + h))"
          using edge_i by (simp only: child)
        with edge_h have "key (xs ! (b + i)) \<le> key (xs ! (b + p))"
          by (rule order_trans [rotated])
        then show ?thesis by (simp only: child at_h at_other [OF ni])
      next
        case self
        show ?thesis
          by (simp only: self p_def [symmetric] at_h at_other [OF ne] order_refl)
      next
        case other
        then show ?thesis
          using edge_i by (simp only: at_other [OF other(1)] at_other [OF other(2)])
      qed
    qed
    have below: "key (xs ! (b + p)) \<le> key v" using True by (simp add: less_imp_le)
    have kids': "\<forall>c. 0 < c \<and> c < len \<and> (c - 1) div 2 = p \<longrightarrow> key (xs' ! (b + c)) \<le> key v"
    proof (intro allI impI)
      fix c assume c: "0 < c \<and> c < len \<and> (c - 1) div 2 = p"
      then have c1: "0 < c" and c2: "c < len" and c3: "(c - 1) div 2 = p" by simp_all
      show "key (xs' ! (b + c)) \<le> key v"
      proof (cases "c = h")
        case True
        show ?thesis using below by (simp only: True at_h)
      next
        case False
        have "tp \<le> (c - 1) div 2" using tp_p by (simp only: c3)
        with heap c1 c2 have "key (xs ! (b + c)) \<le> key (xs ! (b + (c - 1) div 2))"
          by (rule heap_fromD)
        then have "key (xs ! (b + c)) \<le> key (xs ! (b + p))" by (simp only: c3)
        then have "key (xs ! (b + c)) \<le> key v" using below by (rule order_trans)
        then show ?thesis by (simp only: at_other [OF False])
      qed
    qed
    have bound': "b + len \<le> length xs'" using bound len' by simp
    from less.IH [OF p1 bound' p3 p2 heap' kids']
    obtain ys where run: "push_heap cmp xs' b p tp v = Some ys"
      and res: "length ys = length xs'" "heap_from key ys b len tp"
        "mset ys = mset (xs'[b + p := v])" "take (b + tp) ys = take (b + tp) xs'"
        "drop (b + len) ys = drop (b + len) xs'"
      by blast
    have e2: "assign_at xs (b + h) (xs ! (b + p)) = Some xs'" using hl by (simp add: xs'_def)
    have e3: "cmp (xs ! (b + p)) v = True" using True by (simp add: cmp)
    have "push_heap cmp xs b h tp v = push_heap cmp xs' b p tp v"
      by (subst push_heap.simps)
        (simp only: Let_def p_def [symmetric] e1 e2 e3 e4 if_True Option.bind.simps)
    with run have "push_heap cmp xs b h tp v = Some ys" by simp
    moreover have "mset (xs'[b + p := v]) = mset (xs[b + h := v])"
      unfolding xs'_def using hl pl p1 by (intro mset_move_hole) simp_all
    moreover have "take (b + tp) xs' = take (b + tp) xs"
      using tp_le by (simp add: xs'_def)
    moreover have "drop (b + len) xs' = drop (b + len) xs"
      using h by (simp add: xs'_def)
    ultimately show ?thesis
      using res len' by (intro exI [of _ ys]) simp
  qed
qed

lemma leaf_after_sifting:
  fixes len h :: nat
  assumes "(len - 1) div 2 \<le> h" and "\<not> (even len \<and> h = (len - 2) div 2)" and "h < len"
  shows "len \<le> 2 * h + 1"
  using assms by presburger

lemma single_child:
  fixes len h :: nat
  assumes "even len" and "h = (len - 2) div 2" and "h < len"
  shows "2 * (h + 1) - 1 = len - 1" and "0 < len - 1" and "(len - 1 - 1) div 2 = h"
    and "\<forall>i. 0 < i \<and> i < len \<and> (i - 1) div 2 = h \<longrightarrow> i = len - 1"
  using assms by presburger+

lemma adjust_heap_correct:
  fixes key :: "'a \<Rightarrow> 'k :: linorder"
  assumes cmp: "\<And>a b. cmp a b \<longleftrightarrow> key a < key b"
    and bound: "b + len \<le> length xs" and hole: "hole < len"
    and heap: "heap_from key xs b len (Suc hole)"
  shows "\<exists>ys. adjust_heap cmp xs b hole len v = Some ys \<and> length ys = length xs \<and>
           heap_from key ys b len hole \<and> mset ys = mset (xs[b + hole := v]) \<and>
           take (b + hole) ys = take (b + hole) xs \<and> drop (b + len) ys = drop (b + len) xs"
proof -
  have heap0: "heap_from key xs b len (if hole = hole then Suc hole else hole)"
    using heap by simp
  from adjust_heap_loop_correct [of cmp key, OF cmp bound hole desc_refl heap0]
  obtain xs1 h1 where loop: "adjust_heap_loop cmp xs b hole len = Some (xs1, h1)"
    and res1: "length xs1 = length xs" "h1 < len" "desc hole h1" "(len - 1) div 2 \<le> h1"
      "heap_from key xs1 b len (if h1 = hole then Suc hole else hole)"
      "\<forall>v. mset (xs1[b + h1 := v]) = mset (xs[b + hole := v])"
      "take (b + hole) xs1 = take (b + hole) xs" "drop (b + len) xs1 = drop (b + len) xs"
    by blast
  have bound1: "b + len \<le> length xs1" using bound res1(1) by simp
  have hole_le: "hole \<le> h1" using res1(3) by (rule desc_le)
  show ?thesis
  proof (cases "even len \<and> h1 = (len - 2) div 2")
    case True
    note sc = single_child [OF conjunct1 [OF True] conjunct2 [OF True] res1(2)]
    define xs2 where "xs2 = xs1[b + h1 := xs1 ! (b + (len - 1))]"
    have last_lt: "len - 1 < len" using res1(2) by simp
    have len2: "length xs2 = length xs1" by (simp add: xs2_def)
    have bound2: "b + len \<le> length xs2" using bound1 len2 by simp
    have larger: "\<forall>i. 0 < i \<and> i < len \<and> (i - 1) div 2 = h1 \<longrightarrow>
        key (xs1 ! (b + i)) \<le> key (xs1 ! (b + (len - 1)))"
      using sc(4) by auto
    have heap2: "heap_from key xs2 b len hole"
      unfolding xs2_def
      using bound1 res1(2) hole_le res1(5) sc(2) last_lt sc(3) larger
      by (rule heap_move_child_up)
    have d2: "desc hole (len - 1)"
      using res1(3) sc(2) sc(3) by (rule desc_child)
    have kids2: "\<forall>c. 0 < c \<and> c < len \<and> (c - 1) div 2 = len - 1 \<longrightarrow>
        key (xs2 ! (b + c)) \<le> key v"
    proof (intro allI impI)
      fix c :: nat assume "0 < c \<and> c < len \<and> (c - 1) div 2 = len - 1"
      then have False by presburger
      then show "key (xs2 ! (b + c)) \<le> key v" ..
    qed
    from push_heap_correct [of cmp key, OF cmp bound2 last_lt d2 heap2 kids2]
    obtain ys where push: "push_heap cmp xs2 b (len - 1) hole v = Some ys"
      and res: "length ys = length xs2" "heap_from key ys b len hole"
        "mset ys = mset (xs2[b + (len - 1) := v])" "take (b + hole) ys = take (b + hole) xs2"
        "drop (b + len) ys = drop (b + len) xs2"
      by blast
    have e1: "elem_at xs1 (b + (len - 1)) = Some (xs1 ! (b + (len - 1)))"
      using bound1 last_lt by simp
    have e2: "assign_at xs1 (b + h1) (xs1 ! (b + (len - 1))) = Some xs2"
      using bound1 res1(2) by (simp add: xs2_def)
    have cond: "(even len \<and> h1 = (len - 2) div 2) = True" using True by simp
    have "adjust_heap cmp xs b hole len v = push_heap cmp xs2 b (len - 1) hole v"
      unfolding adjust_heap_def
      by (simp only: loop Option.bind.simps prod.case cond if_True Let_def sc(1) e1 e2)
    with push have "adjust_heap cmp xs b hole len v = Some ys" by simp
    moreover have "mset (xs2[b + (len - 1) := v]) = mset (xs[b + hole := v])"
    proof -
      have "h1 \<noteq> len - 1" using sc(3) parent_less [OF sc(2)] by simp
      then have "mset (xs2[b + (len - 1) := v]) = mset (xs1[b + h1 := v])"
        unfolding xs2_def using bound1 res1(2) last_lt by (intro mset_move_hole) simp_all
      then show ?thesis using res1(6) by simp
    qed
    moreover have "take (b + hole) xs2 = take (b + hole) xs1"
      using hole_le by (simp add: xs2_def)
    moreover have "drop (b + len) xs2 = drop (b + len) xs1"
      using res1(2) by (simp add: xs2_def)
    ultimately show ?thesis
      using res res1 len2 by (intro exI [of _ ys]) simp
  next
    case False
    have leaf: "len \<le> 2 * h1 + 1"
      using res1(4) False res1(2) by (rule leaf_after_sifting)
    have none: "\<not> (0 < c \<and> c < len \<and> (c - 1) div 2 = h1)" for c
      using leaf by linarith
    have heap1: "heap_from key xs1 b len hole"
      unfolding heap_from_def
    proof (intro allI impI)
      fix i assume i: "0 < i \<and> i < len \<and> hole \<le> (i - 1) div 2"
      then have i1: "0 < i" and i2: "i < len" and i3: "hole \<le> (i - 1) div 2" by simp_all
      show "key (xs1 ! (b + i)) \<le> key (xs1 ! (b + (i - 1) div 2))"
      proof (cases "h1 = hole")
        case True
        with res1(5) have hp: "heap_from key xs1 b len (Suc hole)" by simp
        have "(i - 1) div 2 \<noteq> hole" using none [of i] i1 i2 True by simp
        with i3 have "Suc hole \<le> (i - 1) div 2" by simp
        with hp i1 i2 show ?thesis by (rule heap_fromD)
      next
        case False
        with res1(5) have "heap_from key xs1 b len hole" by simp
        then show ?thesis using i1 i2 i3 by (rule heap_fromD)
      qed
    qed
    have kids1: "\<forall>c. 0 < c \<and> c < len \<and> (c - 1) div 2 = h1 \<longrightarrow> key (xs1 ! (b + c)) \<le> key v"
      using none by blast
    from push_heap_correct [of cmp key, OF cmp bound1 res1(2) res1(3) heap1 kids1]
    obtain ys where push: "push_heap cmp xs1 b h1 hole v = Some ys"
      and res: "length ys = length xs1" "heap_from key ys b len hole"
        "mset ys = mset (xs1[b + h1 := v])" "take (b + hole) ys = take (b + hole) xs1"
        "drop (b + len) ys = drop (b + len) xs1"
      by blast
    have "adjust_heap cmp xs b hole len v = push_heap cmp xs1 b h1 hole v"
      unfolding adjust_heap_def
      by (simp only: loop Option.bind.simps prod.case False if_False)
    with push have "adjust_heap cmp xs b hole len v = Some ys" by simp
    then show ?thesis
      using res res1 by (intro exI [of _ ys]) simp
  qed
qed

lemma mset_mid:
  assumes "length ys = length xs" and "take a ys = take a xs" and "drop c ys = drop c xs"
    and "a \<le> c" and "mset ys = mset xs"
  shows "mset (take (c - a) (drop a ys)) = mset (take (c - a) (drop a xs))"
proof -
  have split: "zs = take a zs @ take (c - a) (drop a zs) @ drop c zs" for zs :: "'a list"
  proof -
    have "drop a zs = take (c - a) (drop a zs) @ drop (c - a) (drop a zs)"
      by (simp only: append_take_drop_id)
    also have "drop (c - a) (drop a zs) = drop c zs"
      using assms(4) by simp
    finally have "take a zs @ drop a zs = take a zs @ take (c - a) (drop a zs) @ drop c zs"
      by simp
    then show ?thesis by simp
  qed
  have "mset ys = mset (take a ys) + mset (take (c - a) (drop a ys)) + mset (drop c ys)"
    by (subst split [of ys]) simp
  moreover have "mset xs = mset (take a xs) + mset (take (c - a) (drop a xs)) + mset (drop c xs)"
    by (subst split [of xs]) simp
  ultimately show ?thesis
    using assms(2,3,5) by simp
qed

lemma in_set_mid:
  assumes "a \<le> c" and "c \<le> length xs"
  shows "x \<in> set (take (c - a) (drop a xs)) \<longleftrightarrow> (\<exists>i. a \<le> i \<and> i < c \<and> x = xs ! i)"
proof
  assume "x \<in> set (take (c - a) (drop a xs))"
  then obtain k where k: "k < c - a" "x = take (c - a) (drop a xs) ! k"
    using assms by (auto simp: in_set_conv_nth)
  then have "x = xs ! (a + k)" using assms by simp
  with k(1) show "\<exists>i. a \<le> i \<and> i < c \<and> x = xs ! i"
    by (intro exI [of _ "a + k"]) simp
next
  assume "\<exists>i. a \<le> i \<and> i < c \<and> x = xs ! i"
  then obtain i where i: "a \<le> i" "i < c" "x = xs ! i" by blast
  have "take (c - a) (drop a xs) ! (i - a) = xs ! i"
    using i assms by simp
  moreover have "i - a < length (take (c - a) (drop a xs))"
    using i assms by simp
  ultimately show "x \<in> set (take (c - a) (drop a xs))"
    using i(3) by (metis nth_mem)
qed

lemma nth_beyond:
  assumes "drop n ys = drop n xs" and "n \<le> j" and "length ys = length xs" and "j < length xs"
  shows "ys ! j = xs ! j"
proof -
  have n: "n \<le> length xs" "n \<le> length ys" "n + (j - n) = j"
    using assms by simp_all
  have "ys ! j = ys ! (n + (j - n))" by (simp only: n(3))
  also have "\<dots> = drop n ys ! (j - n)" using n(2) by (rule nth_drop [symmetric])
  also have "\<dots> = drop n xs ! (j - n)" by (simp only: assms(1))
  also have "\<dots> = xs ! (n + (j - n))" using n(1) by (rule nth_drop)
  finally show ?thesis by (simp only: n(3))
qed

lemma heap_root_max:
  fixes key :: "'a \<Rightarrow> 'k :: linorder"
  assumes "heap_from key xs b len 0" and "i < len"
  shows "key (xs ! (b + i)) \<le> key (xs ! b)"
  using assms(2)
proof (induction i rule: less_induct)
  case (less i)
  show ?case
  proof (cases "i = 0")
    case True
    then show ?thesis by simp
  next
    case False
    then have i: "0 < i" by simp
    have p: "(i - 1) div 2 < i" using i by (rule parent_less)
    have "key (xs ! (b + i)) \<le> key (xs ! (b + (i - 1) div 2))"
      using assms(1) i less.prems by (rule heap_fromD) simp
    also have "\<dots> \<le> key (xs ! b)"
      using p less.prems by (intro less.IH) simp_all
    finally show ?thesis .
  qed
qed

lemma make_heap_loop_correct:
  fixes key :: "'a \<Rightarrow> 'k :: linorder"
  assumes cmp: "\<And>a b. cmp a b \<longleftrightarrow> key a < key b"
    and "b + len \<le> length xs" and "parent < len" and "heap_from key xs b len (Suc parent)"
  shows "\<exists>ys. make_heap_loop cmp xs b len parent = Some ys \<and> length ys = length xs \<and>
           heap_from key ys b len 0 \<and> mset ys = mset xs \<and>
           take b ys = take b xs \<and> drop (b + len) ys = drop (b + len) xs"
  using assms(2-)
proof (induction parent arbitrary: xs)
  case 0
  note prems = "0.prems"
  from adjust_heap_correct [of cmp key, OF cmp prems(1) prems(2) prems(3), of "xs ! b"]
  obtain ys where "adjust_heap cmp xs b 0 len (xs ! b) = Some ys"
    and "length ys = length xs" "heap_from key ys b len 0" "mset ys = mset (xs[b + 0 := xs ! b])"
    "take (b + 0) ys = take (b + 0) xs" "drop (b + len) ys = drop (b + len) xs"
    by blast
  moreover have "b < length xs" using prems by simp
  ultimately show ?case by simp
next
  case (Suc p)
  have at: "b + Suc p < length xs" using Suc.prems by simp
  from adjust_heap_correct [of cmp key, OF cmp Suc.prems(1) Suc.prems(2) Suc.prems(3),
      of "xs ! (b + Suc p)"]
  obtain xs' where adj: "adjust_heap cmp xs b (Suc p) len (xs ! (b + Suc p)) = Some xs'"
    and res: "length xs' = length xs" "heap_from key xs' b len (Suc p)"
      "mset xs' = mset (xs[b + Suc p := xs ! (b + Suc p)])"
      "take (b + Suc p) xs' = take (b + Suc p) xs" "drop (b + len) xs' = drop (b + len) xs"
    by blast
  have bound': "b + len \<le> length xs'" using Suc.prems(1) res(1) by simp
  have p: "p < len" using Suc.prems(2) by simp
  from Suc.IH [OF bound' p res(2)]
  obtain ys where run: "make_heap_loop cmp xs' b len p = Some ys"
    and ys: "length ys = length xs'" "heap_from key ys b len 0" "mset ys = mset xs'"
      "take b ys = take b xs'" "drop (b + len) ys = drop (b + len) xs'"
    by blast
  have "take b xs' = take b (take (b + Suc p) xs')" by (simp add: min_def)
  also have "\<dots> = take b xs" by (simp only: res(4)) (simp add: min_def)
  finally have "take b xs' = take b xs" .
  then show ?case
    using at adj run ys res by simp
qed

lemma make_heap_correct:
  fixes key :: "'a \<Rightarrow> 'k :: linorder"
  assumes cmp: "\<And>a b. cmp a b \<longleftrightarrow> key a < key b"
    and "b \<le> l" and "l \<le> length xs"
  shows "\<exists>ys. make_heap cmp xs b l = Some ys \<and> length ys = length xs \<and>
           heap_from key ys b (l - b) 0 \<and> mset ys = mset xs \<and>
           take b ys = take b xs \<and> drop l ys = drop l xs"
proof (cases "l - b < 2")
  case True
  have "heap_from key xs b (l - b) 0"
    using True by (auto simp: heap_from_def)
  then show ?thesis
    using True by (simp add: make_heap_def)
next
  case False
  define len where "len = l - b"
  have len: "2 \<le> len" "b + len = l" using False assms(2) by (simp_all add: len_def)
  have bound: "b + len \<le> length xs" using len assms(3) by simp
  have parent: "(len - 2) div 2 < len" using len by linarith
  have heap: "heap_from key xs b len (Suc ((len - 2) div 2))"
    unfolding heap_from_def
  proof (intro allI impI)
    fix i :: nat assume "0 < i \<and> i < len \<and> Suc ((len - 2) div 2) \<le> (i - 1) div 2"
    then have False by linarith
    then show "key (xs ! (b + i)) \<le> key (xs ! (b + (i - 1) div 2))" ..
  qed
  from make_heap_loop_correct [of cmp key, OF cmp bound parent heap]
  show ?thesis
    using False len by (simp add: make_heap_def len_def [symmetric])
qed

lemma sort_heap_correct:
  fixes key :: "'a \<Rightarrow> 'k :: linorder"
  assumes cmp: "\<And>a b. cmp a b \<longleftrightarrow> key a < key b"
    and "b \<le> l" and "l \<le> L" and "L \<le> length xs"
    and "heap_from key xs b (l - b) 0"
    and "\<forall>i j. l \<le> i \<and> i \<le> j \<and> j < L \<longrightarrow> key (xs ! i) \<le> key (xs ! j)"
    and "\<forall>i j. b \<le> i \<and> i < l \<and> l \<le> j \<and> j < L \<longrightarrow> key (xs ! i) \<le> key (xs ! j)"
  shows "\<exists>ys. sort_heap cmp xs b l = Some ys \<and> length ys = length xs \<and> mset ys = mset xs \<and>
           take b ys = take b xs \<and> drop L ys = drop L xs \<and>
           (\<forall>i j. b \<le> i \<and> i \<le> j \<and> j < L \<longrightarrow> key (ys ! i) \<le> key (ys ! j))"
  using assms(2-)
proof (induction "l - b" arbitrary: xs l rule: less_induct)
  case less
  note bl = less.prems(1) and lL = less.prems(2) and Llen = less.prems(3)
    and heap = less.prems(4) and tail = less.prems(5) and cross = less.prems(6)
  show ?case
  proof (cases "1 < l - b")
    case False
    have run: "sort_heap cmp xs b l = Some xs"
      using False by (subst sort_heap.simps) simp
    have "key (xs ! i) \<le> key (xs ! j)" if ij: "b \<le> i" "i \<le> j" "j < L" for i j
    proof (cases "i < l")
      case True
      then have "i = b" using False ij(1) by simp
      show ?thesis
      proof (cases "j < l")
        case True
        then have "j = i" using False ij \<open>i = b\<close> by simp
        then show ?thesis by simp
      next
        case False
        then show ?thesis using cross ij \<open>i < l\<close> by simp
      qed
    next
      case False
      then show ?thesis using tail ij by simp
    qed
    with run show ?thesis by simp
  next
    case True
    define l' where "l' = l - 1"
    have l': "b < l'" "l' < l" "l' < L" "l' < length xs" "Suc l' = l" "b + (l' - b) = l'"
      using True lL Llen by (simp_all add: l'_def)
    have b_len: "b < length xs" using l' by simp
    define xs1 where "xs1 = xs[l' := xs ! b]"
    have len1: "length xs1 = length xs" by (simp add: xs1_def)
    have at1: "xs1 ! k = xs ! k" if "k \<noteq> l'" for k
      using that by (simp add: xs1_def)
    have bound1: "b + (l' - b) \<le> length xs1" using l' len1 by simp
    have hole1: "0 < l' - b" using l' by simp
    have heap1: "heap_from key xs1 b (l' - b) (Suc 0)"
      unfolding heap_from_def
    proof (intro allI impI)
      fix i assume i: "0 < i \<and> i < l' - b \<and> Suc 0 \<le> (i - 1) div 2"
      then have i1: "0 < i" by simp
      from i l'(2) have i2: "i < l - b" by linarith
      have n: "b + i \<noteq> l'" "b + (i - 1) div 2 \<noteq> l'"
        using i parent_less [OF i1] by linarith+
      have "key (xs ! (b + i)) \<le> key (xs ! (b + (i - 1) div 2))"
        using heap i1 i2 by (rule heap_fromD) simp
      then show "key (xs1 ! (b + i)) \<le> key (xs1 ! (b + (i - 1) div 2))"
        by (simp only: at1 [OF n(1)] at1 [OF n(2)])
    qed
    from adjust_heap_correct [of cmp key, OF cmp bound1 hole1 heap1, of "xs ! l'"]
    obtain ys1 where adj: "adjust_heap cmp xs1 b 0 (l' - b) (xs ! l') = Some ys1"
      and res1: "length ys1 = length xs1" "heap_from key ys1 b (l' - b) 0"
        "mset ys1 = mset (xs1[b + 0 := xs ! l'])" "take (b + 0) ys1 = take (b + 0) xs1"
        "drop (b + (l' - b)) ys1 = drop (b + (l' - b)) xs1"
      by blast
    have len_ys1: "length ys1 = length xs" using res1(1) len1 by simp
    have drop1: "drop l' ys1 = drop l' xs1" using res1(5) by (simp only: l'(6))
    have take1: "take b ys1 = take b xs1" using res1(4) by simp
    define zs where "zs = xs1[b := xs ! l']"
    have mset1: "mset ys1 = mset zs" using res1(3) by (simp add: zs_def)
    have zs_swap: "zs = xs[l' := xs ! b, b := xs ! l']" by (simp add: zs_def xs1_def)
    have mset_zs: "mset zs = mset xs"
      unfolding zs_swap using b_len l'(4) by (rule mset_swap)
    have take_zs: "take b zs = take b xs1" by (simp add: zs_def)
    have drop_zs: "drop l' zs = drop l' xs1" using l'(1) by (simp add: zs_def)
    have len_zs: "length zs = length xs" by (simp add: zs_def len1)
    have A: "mset ys1 = mset xs" using mset1 mset_zs by simp
    have B: "take b ys1 = take b xs" using take1 l'(1) by (simp add: xs1_def)
    have C: "drop L ys1 = drop L xs"
    proof -
      have "drop L ys1 = drop (L - l') (drop l' ys1)" using l'(3) by simp
      also have "\<dots> = drop (L - l') (drop l' xs1)" by (simp only: drop1)
      also have "\<dots> = drop L xs1" using l'(3) by simp
      also have "\<dots> = drop L xs" using l'(3) by (simp add: xs1_def)
      finally show ?thesis .
    qed
    have D: "ys1 ! j = xs1 ! j" if "l' \<le> j" "j < length xs" for j
      using drop1 that(1) _ _ by (rule nth_beyond) (simp_all add: len_ys1 len1 that(2))
    have D1: "ys1 ! l' = xs ! b"
      using D [of l'] l'(4) by (simp add: xs1_def)
    have D2: "ys1 ! j = xs ! j" if "l \<le> j" "j < length xs" for j
    proof -
      have "l' \<le> j" "j \<noteq> l'" using that l'(2) by simp_all
      then show ?thesis using D [of j] at1 [of j] that(2) by simp
    qed
    have E: "\<exists>i'. b \<le> i' \<and> i' < l \<and> ys1 ! i = xs ! i'" if i: "b \<le> i" "i < l'" for i
    proof -
      have bl': "b \<le> l'" "l' \<le> length ys1" "l' \<le> length zs"
        using l' len_ys1 len_zs by simp_all
      have "mset (take (l' - b) (drop b ys1)) = mset (take (l' - b) (drop b zs))"
        using _ _ _ bl'(1) mset1
        by (rule mset_mid) (simp_all add: len_ys1 len_zs take1 take_zs drop1 drop_zs)
      then have sets: "set (take (l' - b) (drop b ys1)) = set (take (l' - b) (drop b zs))"
        by (rule mset_eq_setD)
      have "ys1 ! i \<in> set (take (l' - b) (drop b ys1))"
        unfolding in_set_mid [OF bl'(1,2)] using i by blast
      then have "ys1 ! i \<in> set (take (l' - b) (drop b zs))"
        using sets by simp
      then obtain k where k: "b \<le> k" "k < l'" "ys1 ! i = zs ! k"
        unfolding in_set_mid [OF bl'(1,3)] by blast
      show ?thesis
      proof (cases "k = b")
        case True
        then have "zs ! k = xs ! l'" using b_len by (simp add: zs_def len1)
        with k l' show ?thesis by (intro exI [of _ l']) simp
      next
        case False
        then have "zs ! k = xs ! k" using k(2) by (simp add: zs_def xs1_def)
        with k l' show ?thesis by (intro exI [of _ k]) simp
      qed
    qed
    have m: "l' - b < l - b" using l' by simp
    have c1: "b \<le> l'" using l' by simp
    have c2: "l' \<le> L" using l' by simp
    have c3: "L \<le> length ys1" using Llen len_ys1 by simp
    have root: "key (xs ! i') \<le> key (xs ! b)" if "b \<le> i'" "i' < l" for i'
      using heap_root_max [OF heap, of "i' - b"] that by simp
    have c5: "\<forall>i j. l' \<le> i \<and> i \<le> j \<and> j < L \<longrightarrow> key (ys1 ! i) \<le> key (ys1 ! j)"
    proof (intro allI impI)
      fix i j assume ij: "l' \<le> i \<and> i \<le> j \<and> j < L"
      then have jl: "j < length xs" using Llen by simp
      show "key (ys1 ! i) \<le> key (ys1 ! j)"
      proof (cases "i = l'")
        case True
        show ?thesis
        proof (cases "j = l'")
          case True
          with \<open>i = l'\<close> show ?thesis by simp
        next
          case False
          then have "l \<le> j" using ij True l'(5) by simp
          moreover have "key (xs ! b) \<le> key (xs ! j)"
            using cross bl l' ij \<open>l \<le> j\<close> by simp
          ultimately show ?thesis
            using D2 [of j] jl by (simp add: True D1)
        qed
      next
        case False
        then have "l \<le> i" "l \<le> j" using ij l'(5) by simp_all
        moreover have "key (xs ! i) \<le> key (xs ! j)"
          using tail ij \<open>l \<le> i\<close> by simp
        ultimately show ?thesis
          using D2 [of i] D2 [of j] ij jl by simp
      qed
    qed
    have c6: "\<forall>i j. b \<le> i \<and> i < l' \<and> l' \<le> j \<and> j < L \<longrightarrow> key (ys1 ! i) \<le> key (ys1 ! j)"
    proof (intro allI impI)
      fix i j assume ij: "b \<le> i \<and> i < l' \<and> l' \<le> j \<and> j < L"
      then have jl: "j < length xs" using Llen by simp
      from E [of i] ij obtain i' where i': "b \<le> i'" "i' < l" "ys1 ! i = xs ! i'" by blast
      show "key (ys1 ! i) \<le> key (ys1 ! j)"
      proof (cases "j = l'")
        case True
        then show ?thesis using root [OF i'(1,2)] by (simp add: D1 i'(3))
      next
        case False
        then have "l \<le> j" using ij l'(5) by simp
        moreover have "key (xs ! i') \<le> key (xs ! j)"
          using cross i' ij \<open>l \<le> j\<close> by simp
        ultimately show ?thesis
          using D2 [of j] jl by (simp add: i'(3))
      qed
    qed
    from less.hyps [OF m c1 c2 c3 res1(2) c5 c6]
    obtain ys where run': "sort_heap cmp ys1 b l' = Some ys"
      and res: "length ys = length ys1" "mset ys = mset ys1" "take b ys = take b ys1"
        "drop L ys = drop L ys1"
        "\<forall>i j. b \<le> i \<and> i \<le> j \<and> j < L \<longrightarrow> key (ys ! i) \<le> key (ys ! j)"
      by blast
    have e1: "elem_at xs l' = Some (xs ! l')" using l'(4) by simp
    have e2: "elem_at xs b = Some (xs ! b)" using b_len by simp
    have e3: "assign_at xs l' (xs ! b) = Some xs1" using l'(4) by (simp add: xs1_def)
    have pop: "pop_heap cmp xs b l' l' = Some ys1"
      unfolding pop_heap_def by (simp only: e1 e2 e3 Option.bind.simps adj)
    have "sort_heap cmp xs b l = sort_heap cmp ys1 b l'"
      by (subst sort_heap.simps)
        (simp only: True if_True l'_def [symmetric] pop Option.bind.simps)
    with run' have "sort_heap cmp xs b l = Some ys" by simp
    then show ?thesis
      using res len_ys1 A B C by simp
  qed
qed

lemma partial_sort_correct:
  fixes key :: "'a \<Rightarrow> 'k :: linorder"
  assumes cmp: "\<And>a b. cmp a b \<longleftrightarrow> key a < key b"
    and "b \<le> L" and "L \<le> length xs"
  shows "\<exists>ys. partial_sort cmp xs b L L = Some ys \<and> length ys = length xs \<and>
           mset ys = mset xs \<and> take b ys = take b xs \<and> drop L ys = drop L xs \<and>
           (\<forall>i j. b \<le> i \<and> i \<le> j \<and> j < L \<longrightarrow> key (ys ! i) \<le> key (ys ! j))"
proof -
  from make_heap_correct [of cmp key, OF cmp assms(2,3)]
  obtain xs1 where mk: "make_heap cmp xs b L = Some xs1"
    and res1: "length xs1 = length xs" "heap_from key xs1 b (L - b) 0" "mset xs1 = mset xs"
      "take b xs1 = take b xs" "drop L xs1 = drop L xs"
    by blast
  have sel: "heap_select cmp xs b L L = Some xs1"
    unfolding heap_select_def
    by (simp only: mk Option.bind.simps) (subst heap_select_loop.simps, simp)
  have c3: "L \<le> length xs1" using assms(3) res1(1) by simp
  have c5: "\<forall>i j. L \<le> i \<and> i \<le> j \<and> j < L \<longrightarrow> key (xs1 ! i) \<le> key (xs1 ! j)" by auto
  have c6: "\<forall>i j. b \<le> i \<and> i < L \<and> L \<le> j \<and> j < L \<longrightarrow> key (xs1 ! i) \<le> key (xs1 ! j)"
    by auto
  from sort_heap_correct [of cmp key, OF cmp assms(2) order_refl c3 res1(2) c5 c6]
  obtain ys where "sort_heap cmp xs1 b L = Some ys"
    and "length ys = length xs1" "mset ys = mset xs1" "take b ys = take b xs1"
      "drop L ys = drop L xs1"
      "\<forall>i j. b \<le> i \<and> i \<le> j \<and> j < L \<longrightarrow> key (ys ! i) \<le> key (ys ! j)"
    by blast
  then show ?thesis
    using sel res1 by (simp add: partial_sort_def)
qed

subsection \<open>Introsort\<close>

lemma nth_before:
  assumes "take n ys = take n xs" and "i < n"
  shows "ys ! i = xs ! i"
proof -
  have "ys ! i = take n ys ! i" using assms(2) by simp
  also have "\<dots> = take n xs ! i" by (simp only: assms(1))
  also have "\<dots> = xs ! i" using assms(2) by simp
  finally show ?thesis .
qed

lemma range_transfer:
  assumes "length ys = length xs" and "take a ys = take a xs" and "drop c ys = drop c xs"
    and "a \<le> c" and "c \<le> length xs" and "mset ys = mset xs"
    and "\<forall>i. a \<le> i \<and> i < c \<longrightarrow> P (xs ! i)"
  shows "\<forall>i. a \<le> i \<and> i < c \<longrightarrow> P (ys ! i)"
proof (intro allI impI)
  fix i assume i: "a \<le> i \<and> i < c"
  have c': "c \<le> length ys" using assms(1,5) by simp
  have "mset (take (c - a) (drop a ys)) = mset (take (c - a) (drop a xs))"
    using assms(1,2,3,4,6) by (rule mset_mid)
  then have "set (take (c - a) (drop a ys)) = set (take (c - a) (drop a xs))"
    by (rule mset_eq_setD)
  moreover have "ys ! i \<in> set (take (c - a) (drop a ys))"
    unfolding in_set_mid [OF assms(4) c'] using i by blast
  ultimately have "ys ! i \<in> set (take (c - a) (drop a xs))" by simp
  then obtain k where "a \<le> k" "k < c" "ys ! i = xs ! k"
    unfolding in_set_mid [OF assms(4,5)] by blast
  then show "P (ys ! i)" using assms(7) by simp
qed

lemma range_has_least:
  fixes key :: "'a \<Rightarrow> 'k :: linorder"
  assumes "first < lst"
  shows "\<exists>m. first \<le> m \<and> m < lst \<and> (\<forall>j. first \<le> j \<and> j < lst \<longrightarrow> key (xs ! m) \<le> key (xs ! j))"
proof -
  let ?S = "(\<lambda>j. key (xs ! j)) ` {first ..< lst}"
  have fin: "finite ?S" by simp
  have ne: "?S \<noteq> {}" using assms by simp
  from Min_in [OF fin ne] obtain m where m: "m \<in> {first ..< lst}" "key (xs ! m) = Min ?S"
    by auto
  have "key (xs ! m) \<le> key (xs ! j)" if "first \<le> j" "j < lst" for j
  proof -
    have "key (xs ! j) \<in> ?S" using that by simp
    then have "Min ?S \<le> key (xs ! j)" using fin by (rule Min_le [rotated])
    then show ?thesis by (simp only: m(2))
  qed
  with m(1) show ?thesis by (intro exI [of _ m]) simp
qed

lemma introsort_loop_correct:
  fixes key :: "'a \<Rightarrow> 'k :: linorder"
  assumes cmp: "\<And>a b. cmp a b \<longleftrightarrow> key a < key b"
    and "first \<le> lst" and "lst \<le> length xs"
  shows "\<exists>ys. introsort_loop cmp xs first lst d = Some ys \<and> length ys = length xs \<and>
           mset ys = mset xs \<and> take first ys = take first xs \<and> drop lst ys = drop lst xs \<and>
           (first < lst \<longrightarrow>
              (\<exists>m. first \<le> m \<and> m < first + 16 \<and> m < lst \<and>
                   (\<forall>j. first \<le> j \<and> j < lst \<longrightarrow> key (ys ! m) \<le> key (ys ! j))))"
  using assms(2-)
proof (induction d arbitrary: xs first lst)
  case 0
  show ?case
  proof (cases "16 < lst - first")
    case True
    from partial_sort_correct [of cmp key, OF cmp "0.prems"]
    obtain ys where "partial_sort cmp xs first lst lst = Some ys"
      and "length ys = length xs" "mset ys = mset xs" "take first ys = take first xs"
        "drop lst ys = drop lst xs"
      and sorted: "\<forall>i j. first \<le> i \<and> i \<le> j \<and> j < lst \<longrightarrow> key (ys ! i) \<le> key (ys ! j)"
      by blast
    moreover have "\<exists>m. first \<le> m \<and> m < first + 16 \<and> m < lst \<and>
        (\<forall>j. first \<le> j \<and> j < lst \<longrightarrow> key (ys ! m) \<le> key (ys ! j))"
      using True sorted by (intro exI [of _ first]) simp
    ultimately show ?thesis using True by simp
  next
    case False
    have "\<exists>m. first \<le> m \<and> m < first + 16 \<and> m < lst \<and>
        (\<forall>j. first \<le> j \<and> j < lst \<longrightarrow> key (xs ! m) \<le> key (xs ! j))" if "first < lst"
    proof -
      from range_has_least [OF that, of key xs] obtain m where
        m: "first \<le> m" "m < lst" "\<forall>j. first \<le> j \<and> j < lst \<longrightarrow> key (xs ! m) \<le> key (xs ! j)"
        by blast
      then have "m < first + 16" using False by simp
      with m show ?thesis by blast
    qed
    then show ?thesis using False by simp
  qed
next
  case (Suc d)
  show ?case
  proof (cases "16 < lst - first")
    case False
    have "\<exists>m. first \<le> m \<and> m < first + 16 \<and> m < lst \<and>
        (\<forall>j. first \<le> j \<and> j < lst \<longrightarrow> key (xs ! m) \<le> key (xs ! j))" if "first < lst"
    proof -
      from range_has_least [OF that, of key xs] obtain m where
        m: "first \<le> m" "m < lst" "\<forall>j. first \<le> j \<and> j < lst \<longrightarrow> key (xs ! m) \<le> key (xs ! j)"
        by blast
      then have "m < first + 16" using False by simp
      with m show ?thesis by blast
    qed
    then show ?thesis using False by simp
  next
    case True
    then have size: "first + 4 \<le> lst" by simp
    from unguarded_partition_pivot_correct [of cmp key, OF cmp size Suc.prems(2)]
    obtain xs1 cut where
      part: "unguarded_partition_pivot cmp xs first lst = Some (xs1, cut)"
      and cut: "first < cut" "cut < lst"
      and res1: "length xs1 = length xs" "mset xs1 = mset xs" "take first xs1 = take first xs"
        "drop lst xs1 = drop lst xs"
      and low1: "\<forall>i. first \<le> i \<and> i < cut \<longrightarrow> key (xs1 ! i) \<le> key (xs1 ! first)"
      and high1: "\<forall>j. cut \<le> j \<and> j < lst \<longrightarrow> key (xs1 ! first) \<le> key (xs1 ! j)"
      by blast
    define pv where "pv = key (xs1 ! first)"
    have a1: "cut \<le> lst" "lst \<le> length xs1" using cut Suc.prems res1(1) by simp_all
    from Suc.IH [OF a1]
    obtain xs2 where run2: "introsort_loop cmp xs1 cut lst d = Some xs2"
      and res2: "length xs2 = length xs1" "mset xs2 = mset xs1" "take cut xs2 = take cut xs1"
        "drop lst xs2 = drop lst xs1"
      by blast
    have a2: "first \<le> cut" "cut \<le> length xs2" using cut a1 res2(1) by simp_all
    from Suc.IH [OF a2]
    obtain ys where run3: "introsort_loop cmp xs2 first cut d = Some ys"
      and res3: "length ys = length xs2" "mset ys = mset xs2" "take first ys = take first xs2"
        "drop cut ys = drop cut xs2"
      and least: "first < cut \<longrightarrow>
              (\<exists>m. first \<le> m \<and> m < first + 16 \<and> m < cut \<and>
                   (\<forall>j. first \<le> j \<and> j < cut \<longrightarrow> key (ys ! m) \<le> key (ys ! j)))"
      by blast
    from least cut(1) obtain m where m: "first \<le> m" "m < first + 16" "m < cut"
      and m_least: "\<forall>j. first \<le> j \<and> j < cut \<longrightarrow> key (ys ! m) \<le> key (ys ! j)"
      by blast
    have high2: "\<forall>j. cut \<le> j \<and> j < lst \<longrightarrow> pv \<le> key (xs2 ! j)"
      using res2(1) res2(3) res2(4) a1(1) a1(2) res2(2) high1 [folded pv_def]
      by (rule range_transfer)
    have low2: "\<forall>i. first \<le> i \<and> i < cut \<longrightarrow> key (xs2 ! i) \<le> pv"
    proof (intro allI impI)
      fix i assume i: "first \<le> i \<and> i < cut"
      then have i2: "i < cut" by simp
      have "xs2 ! i = xs1 ! i" using res2(3) i2 by (rule nth_before)
      then show "key (xs2 ! i) \<le> pv" using low1 i by (simp add: pv_def)
    qed
    have a2': "cut \<le> length xs2" using a2 by simp
    have low3: "\<forall>i. first \<le> i \<and> i < cut \<longrightarrow> key (ys ! i) \<le> pv"
      using res3(1) res3(3) res3(4) a2(1) a2' res3(2) low2
      by (rule range_transfer)
    have high3: "pv \<le> key (ys ! j)" if "cut \<le> j" "j < lst" for j
    proof -
      have "j < length xs2" using that a1 res2(1) by simp
      with res3(4) that(1) res3(1) have "ys ! j = xs2 ! j" by (rule nth_beyond)
      then show ?thesis using high2 that by simp
    qed
    have "key (ys ! m) \<le> key (ys ! j)" if "first \<le> j" "j < lst" for j
    proof (cases "j < cut")
      case True
      then show ?thesis using m_least that by simp
    next
      case False
      have "key (ys ! m) \<le> pv" using low3 m by simp
      also have "pv \<le> key (ys ! j)" using high3 [of j] False that by simp
      finally show ?thesis .
    qed
    then have final: "\<exists>m. first \<le> m \<and> m < first + 16 \<and> m < lst \<and>
        (\<forall>j. first \<le> j \<and> j < lst \<longrightarrow> key (ys ! m) \<le> key (ys ! j))"
      using m cut by (intro exI [of _ m]) simp
    have run: "introsort_loop cmp xs first lst (Suc d) = Some ys"
      using True part run2 run3 by simp
    have t: "take first ys = take first xs"
    proof -
      have "take first xs2 = take first (take cut xs2)" using cut by (simp add: min_def)
      also have "\<dots> = take first (take cut xs1)" by (simp only: res2(3))
      also have "\<dots> = take first xs1" using cut by (simp add: min_def)
      finally show ?thesis using res3(3) res1(3) by simp
    qed
    have dr: "drop lst ys = drop lst xs"
    proof -
      have "drop lst ys = drop (lst - cut) (drop cut ys)" using cut by simp
      also have "\<dots> = drop (lst - cut) (drop cut xs2)" by (simp only: res3(4))
      also have "\<dots> = drop lst xs2" using cut by simp
      finally show ?thesis using res2(4) res1(4) by simp
    qed
    show ?thesis
      using run res1 res2 res3 t dr final by simp
  qed
qed

lemma std_sort_sorts:
  fixes key :: "'a \<Rightarrow> 'k :: linorder"
  assumes cmp: "\<And>a b. cmp a b \<longleftrightarrow> key a < key b"
  shows "\<exists>ys. std_sort cmp xs = Some ys \<and> mset ys = mset xs \<and> sorted (map key ys)"
proof (cases "length xs = 0")
  case True
  then show ?thesis by (simp add: std_sort_def)
next
  case False
  then have pos: "0 < length xs" by simp
  from introsort_loop_correct [of cmp key 0 "length xs" xs "2 * lg (length xs)", OF cmp]
  obtain xs1 where run1: "introsort_loop cmp xs 0 (length xs) (2 * lg (length xs)) = Some xs1"
    and res1: "length xs1 = length xs" "mset xs1 = mset xs"
    and least: "0 < length xs \<longrightarrow>
        (\<exists>m. 0 \<le> m \<and> m < 0 + 16 \<and> m < length xs \<and>
             (\<forall>j. 0 \<le> j \<and> j < length xs \<longrightarrow> key (xs1 ! m) \<le> key (xs1 ! j)))"
    by auto
  from least pos obtain m where m: "m < 16" "m < length xs"
    and m_least: "\<forall>j. j < length xs \<longrightarrow> key (xs1 ! m) \<le> key (xs1 ! j)"
    by auto
  have "\<exists>x\<in>set (take 16 xs1). \<forall>y\<in>set xs1. key x \<le> key y"
  proof (intro bexI [of _ "xs1 ! m"] ballI)
    show "xs1 ! m \<in> set (take 16 xs1)"
      using m res1(1) by (auto simp: in_set_conv_nth intro!: exI [of _ m])
  next
    fix y assume "y \<in> set xs1"
    then obtain j where "j < length xs1" "y = xs1 ! j" by (auto simp: in_set_conv_nth)
    then show "key (xs1 ! m) \<le> key y" using m_least res1(1) by simp
  qed
  then have "16 < length xs1 \<Longrightarrow> \<exists>x\<in>set (take 16 xs1). \<forall>y\<in>set xs1. key x \<le> key y" .
  from final_insertion_sort_sorted [of cmp key xs1, OF cmp this]
  obtain ys where "final_insertion_sort cmp xs1 0 (length xs1) = Some ys"
    and "mset ys = mset xs1" "sorted (map key ys)"
    by blast
  then show ?thesis
    using False run1 res1 by (simp add: std_sort_def)
qed

section \<open>Sorting the groups by material\<close>

text \<open>
  C2, as the code has it. \<^verbatim>\<open>aggregateByMaterial\<close> returns, and afterwards the groups are in
  ascending order of material index and are the groups the mesh held before, each as
  often as before; nothing else of the mesh changes. Nothing is said about the order of
  groups of equal material index.
\<close>

theorem aggregateByMaterial_sorts_a_permutation:
  "\<exists>m'. aggregateByMaterial m = Some m' \<and>
     sorted (map materialIndex (groups m')) \<and>
     mset (groups m') = mset (groups m) \<and>
     vertexDesc m' = vertexDesc m \<and> nVertices m' = nVertices m \<and>
     vertices m' = vertices m \<and> name m' = name m"
proof -
  from std_sort_sorts [of "\<lambda>g0 g1. materialIndex g0 < materialIndex g1" materialIndex
      "groups m"]
  obtain ys where
    "std_sort (\<lambda>g0 g1. materialIndex g0 < materialIndex g1) (groups m) = Some ys"
    and "mset ys = mset (groups m)" and "sorted (map materialIndex ys)"
    by blast
  then show ?thesis
    by (simp add: aggregateByMaterial_def)
qed

theorem aggregateByMaterial_sorts_a_permutation_witness:
  "\<exists>m'. aggregateByMaterial
          (mesh_of_batches [batch 2 [0, 1, 2], batch 1 [3, 4, 5], batch 2 [3, 4, 5]]) = Some m' \<and>
     map materialIndex (groups m') = [1, 2, 2]"
proof -
  let ?m = "mesh_of_batches [batch 2 [0, 1, 2], batch 1 [3, 4, 5], batch 2 [3, 4, 5]]"
  from aggregateByMaterial_sorts_a_permutation [of ?m]
  obtain m' where run: "aggregateByMaterial ?m = Some m'"
    and sorted: "sorted (map materialIndex (groups m'))"
    and perm: "mset (groups m') = mset (groups ?m)"
    by blast
  from perm have "mset (map materialIndex (groups m')) = mset (map materialIndex (groups ?m))"
    by simp
  from properties_for_sort [OF this sorted]
  have "map materialIndex (groups m') = sort (map materialIndex (groups ?m))"
    by simp
  also have "\<dots> = [1, 2, 2]"
    by code_simp
  finally have "map materialIndex (groups m') = [1, 2, 2]" .
  with run show ?thesis
    by (intro exI [of _ m'] conjI)
qed

text \<open>Two groups of equal material index come back in the order they had.\<close>

lemma aggregateByMaterial_keeps_two_equal_materials:
  "map_option (\<lambda>m. map indices (groups m))
     (aggregateByMaterial (mesh_of_batches [batch 0 [0, 1, 2], batch 0 [3, 4, 5]])) =
   Some [[0, 1, 2], [3, 4, 5]]"
  by code_simp

text \<open>
  The order of groups of equal material index is not kept. With the sort of the GNU
  library, seventeen groups of material index 0 are partitioned once around the median
  of three, which exchanges groups that compare equal: the groups come back in the
  order 8, 16, 15, 14, 13, 12, 11, 10, 9, 0, 7, 6, 5, 4, 3, 2, 1.
\<close>

theorem aggregateByMaterial_reorders_equal_materials:
  "map materialIndex (groups mesh17) = [0, 0, 0, 0, 0, 0, 0, 0, 0, 0, 0, 0, 0, 0, 0, 0, 0] \<and>
   map indices (groups mesh17) =
     [[0], [1], [2], [3], [4], [5], [6], [7], [8], [9], [10], [11], [12], [13], [14], [15], [16]] \<and>
   (\<exists>m'. aggregateByMaterial mesh17 = Some m' \<and>
      map indices (groups m') =
        [[8], [16], [15], [14], [13], [12], [11], [10], [9], [0], [7], [6], [5], [4], [3], [2],
         [1]] \<and>
      \<not> same_order_per_material (groups mesh17) (groups m'))"
proof -
  have before: "map materialIndex (groups mesh17) = [0, 0, 0, 0, 0, 0, 0, 0, 0, 0, 0, 0, 0, 0, 0, 0, 0]"
    "map indices (groups mesh17) =
     [[0], [1], [2], [3], [4], [5], [6], [7], [8], [9], [10], [11], [12], [13], [14], [15], [16]]"
    by code_simp+
  have "map_option (\<lambda>m. (map indices (groups m), map materialIndex (groups m)))
      (aggregateByMaterial mesh17) =
     Some ([[8], [16], [15], [14], [13], [12], [11], [10], [9], [0], [7], [6], [5], [4], [3],
            [2], [1]],
           [0, 0, 0, 0, 0, 0, 0, 0, 0, 0, 0, 0, 0, 0, 0, 0, 0])"
    by code_simp
  then obtain m' where run: "aggregateByMaterial mesh17 = Some m'"
    and after: "map indices (groups m') =
        [[8], [16], [15], [14], [13], [12], [11], [10], [9], [0], [7], [6], [5], [4], [3], [2],
         [1]]"
      "map materialIndex (groups m') = [0, 0, 0, 0, 0, 0, 0, 0, 0, 0, 0, 0, 0, 0, 0, 0, 0]"
    by auto
  have changed: "\<not> same_order_per_material (groups mesh17) (groups m')"
  proof
    assume "same_order_per_material (groups mesh17) (groups m')"
    then have "\<forall>k\<in>set (map materialIndex (groups mesh17 @ groups m')).
        filter (\<lambda>g. materialIndex g = k) (groups m') =
        filter (\<lambda>g. materialIndex g = k) (groups mesh17)"
      unfolding same_order_per_material_def list_all_iff set_remdups .
    moreover have "0 \<in> set (map materialIndex (groups mesh17 @ groups m'))"
      unfolding map_append before(1) by simp
    ultimately have "filter (\<lambda>g. materialIndex g = 0) (groups m') =
        filter (\<lambda>g. materialIndex g = 0) (groups mesh17)"
      by (rule bspec)
    moreover have "set (map materialIndex (groups m')) \<subseteq> {0}"
      unfolding after(2) by simp
    then have "\<forall>g\<in>set (groups m'). materialIndex g = 0"
      by auto
    moreover have "set (map materialIndex (groups mesh17)) \<subseteq> {0}"
      unfolding before(1) by simp
    then have "\<forall>g\<in>set (groups mesh17). materialIndex g = 0"
      by auto
    ultimately have "groups m' = groups mesh17"
      by (simp add: filter_True)
    then have "map indices (groups m') = map indices (groups mesh17)" by simp
    then show False unfolding after(1) before(2) by simp
  qed
  show ?thesis
  proof (intro conjI exI)
    show "aggregateByMaterial mesh17 = Some m'" by (rule run)
  qed (fact before after(1) changed)+
qed

section \<open>Conversions between \<^verbatim>\<open>unsigned int\<close> and \<^verbatim>\<open>int\<close>\<close>

lemma sint_small: "unat w < 2 ^ 31 \<Longrightarrow> sint (w :: uint) = int (unat w)"
proof -
  assume a: "unat w < 2 ^ 31"
  have u: "uint w = int (unat w)" by (rule uint_nat)
  have "int (unat w) < int (2 ^ 31)" using a by (simp only: of_nat_less_iff)
  then have "int (unat w) < 2 ^ 31" by simp
  then have lt: "uint w < 2 ^ 31" by (simp only: u)
  have "- (2 ^ 31) \<le> (0 :: int)" by simp
  then have ge: "- (2 ^ 31) \<le> uint w"
    using uint_nonnegative [of w] by (rule order_trans)
  have "sint w = signed_take_bit 31 (uint w)"
    by (simp add: sint_uint)
  also have "\<dots> = uint w"
    using ge lt by (rule signed_take_bit_int_eq_self)
  finally show ?thesis by (simp only: u)
qed

lemma sint_of_nat_small: "n < 2 ^ 31 \<Longrightarrow> sint (of_nat n :: uint) = int n"
  by (simp add: sint_small unat_of_nat32)

lemma sint_format_size: "sint (getFormatSize f) = int (unat (getFormatSize f))"
  by (cases f) simp_all

lemma sint_pred_of_nat:
  assumes "1 \<le> n" "n < 2 ^ 31"
  shows "sint (of_nat n - 1 :: uint) = int (n - 1)"
proof -
  have "(of_nat n - 1 :: uint) = of_nat (n - 1)"
    using assms(1) by simp
  then show ?thesis
    using assms(2) by (simp add: sint_of_nat_small)
qed


section \<open>The output of line expansion\<close>

lemma memread_int:
  "x + n \<le> length buf \<Longrightarrow> memread buf (int x) (int n) = Some (take n (drop x buf))"
  by (simp add: memread_def)

lemma line_vertex_eq:
  assumes a: "(unat a + 1) * unat (stride (vertexDesc m)) \<le> length (vertices m)"
    and b: "(unat b + 1) * unat (stride (vertexDesc m)) \<le> length (vertices m)"
    and p: "unat (offset (getAttribute (vertexDesc m) Position)) +
            unat (getFormatSize (format (getAttribute (vertexDesc m) Position)))
            \<le> unat (stride (vertexDesc m))"
  shows "line_vertex (vertices m) (int (unat (stride (vertexDesc m))))
           (int (unat (offset (getAttribute (vertexDesc m) Position))))
           (int (unat (getFormatSize (format (getAttribute (vertexDesc m) Position)))))
           (int (unat a * unat (stride (vertexDesc m))))
           (int (unat b * unat (stride (vertexDesc m)))) scale =
         Some (expanded_vertex m a b scale)"
proof -
  let ?S = "unat (stride (vertexDesc m))"
  let ?O = "unat (offset (getAttribute (vertexDesc m) Position))"
  let ?P = "unat (getFormatSize (format (getAttribute (vertexDesc m) Position)))"
  have r: "memread (vertices m) (int (unat a * ?S)) (int ?S) =
      Some (take ?S (drop (unat a * ?S) (vertices m)))"
    using a by (intro memread_int) simp
  have "unat b * ?S + ?O + ?P \<le> length (vertices m)"
    using b p by simp
  then have q: "memread (vertices m) (int (unat b * ?S + ?O)) (int ?P) =
      Some (take ?P (drop (unat b * ?S + ?O) (vertices m)))"
    by (intro memread_int)
  have e: "int (unat b * ?S) + int ?O = int (unat b * ?S + ?O)" by simp
  show ?thesis
    unfolding line_vertex_def e r q
    by (simp add: expanded_vertex_def vertex_record_def vertex_position_def)
qed

lemma expanded_vertex_length:
  assumes a: "(unat a + 1) * unat (stride (vertexDesc m)) \<le> length (vertices m)"
    and b: "(unat b + 1) * unat (stride (vertexDesc m)) \<le> length (vertices m)"
    and p: "unat (offset (getAttribute (vertexDesc m) Position)) +
            unat (getFormatSize (format (getAttribute (vertexDesc m) Position)))
            \<le> unat (stride (vertexDesc m))"
  shows "length (expanded_vertex m a b scale) =
     unat (stride (vertexDesc m)) +
     unat (getFormatSize (format (getAttribute (vertexDesc m) Position))) + 4"
proof -
  let ?S = "unat (stride (vertexDesc m))"
  let ?O = "unat (offset (getAttribute (vertexDesc m) Position))"
  let ?P = "unat (getFormatSize (format (getAttribute (vertexDesc m) Position)))"
  have "unat a * ?S + ?S \<le> length (vertices m)" using a by simp
  then have 1: "length (vertex_record m a) = ?S"
    by (simp add: vertex_record_def)
  have "unat b * ?S + ?O + ?P \<le> length (vertices m)" using b p by simp
  then have 2: "length (vertex_position m b) = ?P"
    by (simp add: vertex_position_def)
  show ?thesis
    by (simp add: expanded_vertex_def 1 2 f32_bytes_def)
qed


lemma c_int_small: "n < 2 ^ 31 \<Longrightarrow> c_int (int n) = Some (int n)"
proof -
  assume "n < 2 ^ 31"
  then have "int n < int (2 ^ 31)" by (simp only: of_nat_less_iff)
  then have "int n < 2 ^ 31" by simp
  moreover have "- (2 ^ 31) \<le> int n" by simp
  ultimately show ?thesis by (simp only: c_int_def) simp
qed

lemma vertex_location:
  assumes "(unat i + 1) * S \<le> L" and "L < 2 ^ 31"
  shows "c_int (sint (i :: index32) * int S) = Some (int (unat i * S))"
proof (cases "S = 0")
  case True
  then show ?thesis by (simp add: c_int_def)
next
  case False
  then have "unat i < (unat i + 1) * S" by (cases S) simp_all
  then have "unat i < 2 ^ 31" using assms by linarith
  then have "sint i = int (unat i)" by (rule sint_small)
  then have e: "sint i * int S = int (unat i * S)" by (simp only: of_nat_mult)
  have "unat i * S < 2 ^ 31" using assms by simp
  then show ?thesis unfolding e by (rule c_int_small)
qed

lemma segment_positions:
  assumes "j < line_count lineStrip is"
  shows "(if lineStrip then j else 2 * j) < length is"
    and "(if lineStrip then j + 1 else 2 * j + 1) < length is"
  using assms by (auto simp: line_count_def)

lemma line_loop_run:
  assumes in_buffer:
      "\<forall>i\<in>set is. (unat i + 1) * unat (stride (vertexDesc m)) \<le> length (vertices m)"
    and pos: "unat (offset (getAttribute (vertexDesc m) Position)) +
              unat (getFormatSize (format (getAttribute (vertexDesc m) Position)))
              \<le> unat (stride (vertexDesc m))"
    and small: "length (vertices m) < 2 ^ 31"
    and n: "n = line_count lineStrip is"
    and j: "j \<le> n"
  shows "line_loop (vertices m) (int (unat (stride (vertexDesc m))))
           (int (unat (offset (getAttribute (vertexDesc m) Position))))
           (int (unat (getFormatSize (format (getAttribute (vertexDesc m) Position)))))
           lineStrip is (int n) (int j) data newIndices =
         Some (data @ concat (map (expanded_segment m lineStrip is) [j..<n]),
               newIndices @ concat (map segment_triangles [j..<n]))"
  using j
proof (induction "n - j" arbitrary: j data newIndices)
  case 0
  then have "j = n" by simp
  then show ?case by (subst line_loop.simps) simp
next
  case (Suc d)
  let ?S = "unat (stride (vertexDesc m))"
  from Suc.hyps(2) have lt: "j < n" by simp
  then have jl: "j < line_count lineStrip is" using n by simp
  define p0 where "p0 = (if lineStrip then j else 2 * j)"
  define p1 where "p1 = (if lineStrip then j + 1 else 2 * j + 1)"
  have p0: "p0 < length is" and p1: "p1 < length is"
    using segment_positions [OF jl] by (simp_all add: p0_def p1_def)
  have i0: "(if lineStrip then int j else int j * 2) = int p0"
    and i1: "(if lineStrip then int j + 1 else int j * 2 + 1) = int p1"
    by (simp_all add: p0_def p1_def)
  have ends: "segment_ends lineStrip is j = (is ! p0, is ! p1)"
    by (simp add: segment_ends_def p0_def p1_def)
  have b0: "(unat (is ! p0) + 1) * ?S \<le> length (vertices m)"
    and b1: "(unat (is ! p1) + 1) * ?S \<le> length (vertices m)"
    using in_buffer p0 p1 by (simp_all only: nth_mem)
  note loc0 = vertex_location [OF b0 small] and loc1 = vertex_location [OF b1 small]
  note v01 = line_vertex_eq [OF b0 b1 pos] and v10 = line_vertex_eq [OF b1 b0 pos]
  have idx: "(of_int (4 * int j) :: index32) = of_nat (4 * j)" by simp
  have step: "[j..<n] = j # [Suc j..<n]" using lt by (rule upt_conv_Cons)
  have d: "d = n - Suc j" using Suc.hyps(2) by simp
  have le: "Suc j \<le> n" using lt by simp
  have next_i: "int j + 1 = int (Suc j)" by simp
  have cond: "int j < int n" using lt by simp
  have seg: "expanded_segment m lineStrip is j =
      expanded_vertex m (is ! p0) (is ! p1) minus_half @
      expanded_vertex m (is ! p0) (is ! p1) plus_half @
      expanded_vertex m (is ! p1) (is ! p0) minus_half @
      expanded_vertex m (is ! p1) (is ! p0) plus_half"
    by (simp add: expanded_segment_def ends)
  have tri: "segment_triangles j =
      [of_nat (4 * j), of_nat (4 * j) + 1, of_nat (4 * j) + 2, of_nat (4 * j) + 2,
       of_nat (4 * j) + 3, of_nat (4 * j)]"
    by (simp add: segment_triangles_def Let_def)
  have IH: "line_loop (vertices m) (int (unat (stride (vertexDesc m))))
           (int (unat (offset (getAttribute (vertexDesc m) Position))))
           (int (unat (getFormatSize (format (getAttribute (vertexDesc m) Position)))))
           lineStrip is (int n) (int j + 1) data' newIndices' =
         Some (data' @ concat (map (expanded_segment m lineStrip is) [Suc j..<n]),
               newIndices' @ concat (map segment_triangles [Suc j..<n]))"
    for data' newIndices'
    using Suc.hyps(1) [OF d le, of data' newIndices'] by (simp only: next_i)
  show ?case
    apply (subst line_loop.simps)
    apply (simp only: cond if_True i0 i1 vec_at_nat [OF p0] vec_at_nat [OF p1] loc0 loc1
        v01 v10 Option.bind.simps Let_def idx IH)
    apply (simp only: step seg tri list.map concat.simps append_assoc append.simps)
    done
qed


lemma expanded_segment_length:
  assumes in_buffer:
      "\<forall>i\<in>set is. (unat i + 1) * unat (stride (vertexDesc m)) \<le> length (vertices m)"
    and pos: "unat (offset (getAttribute (vertexDesc m) Position)) +
              unat (getFormatSize (format (getAttribute (vertexDesc m) Position)))
              \<le> unat (stride (vertexDesc m))"
    and k: "k < line_count lineStrip is"
  shows "length (expanded_segment m lineStrip is k) =
     4 * (unat (stride (vertexDesc m)) +
          unat (getFormatSize (format (getAttribute (vertexDesc m) Position))) + 4)"
proof -
  define p0 where "p0 = (if lineStrip then k else 2 * k)"
  define p1 where "p1 = (if lineStrip then k + 1 else 2 * k + 1)"
  have p0: "p0 < length is" and p1: "p1 < length is"
    using segment_positions [OF k] by (simp_all add: p0_def p1_def)
  have ends: "segment_ends lineStrip is k = (is ! p0, is ! p1)"
    by (simp add: segment_ends_def p0_def p1_def)
  have b0: "(unat (is ! p0) + 1) * unat (stride (vertexDesc m)) \<le> length (vertices m)"
    and b1: "(unat (is ! p1) + 1) * unat (stride (vertexDesc m)) \<le> length (vertices m)"
    using in_buffer p0 p1 by (simp_all only: nth_mem)
  show ?thesis
    by (simp add: expanded_segment_def ends expanded_vertex_length [OF b0 b1 pos]
          expanded_vertex_length [OF b1 b0 pos])
qed

text \<open>
  For a line list, or a line strip of at least one index, whose indices address
  records inside the vertex buffer, whose position field lies inside the record, and
  for which the sizes the code computes in \<^verbatim>\<open>int\<close> are representable
  (\<open>S\<close> is the stride, \<open>P\<close> the size of the position, \<open>n\<close> the number of segments):
  line expansion returns a group whose override buffer is, segment after segment, the
  four output vertices (this end with scale \<open>-0.5\<close>, this end with \<open>+0.5\<close>, other end with
  \<open>-0.5\<close>, other end with \<open>+0.5\<close>), each the record of its end followed by the position of
  the other end and the scale, \<open>S + P + 4\<close> bytes long; whose override indices are, segment
  after segment, \<open>4k, 4k+1, 4k+2, 4k+2, 4k+3, 4k\<close>; whose override topology is \<open>TriList\<close>;
  whose override vertex count is \<open>4n\<close>; and whose override layout is the original fields
  followed by \<open>NextPosition\<close> and \<open>ScaleFactor\<close>, with stride \<open>S + P + 4\<close>.
\<close>

lemma line_expansion_output:
  fixes m :: Mesh and lineStrip :: bool and "is" :: "index32 list"
  defines "S \<equiv> unat (stride (vertexDesc m))"
    and "P \<equiv> unat (getFormatSize (format (getAttribute (vertexDesc m) Position)))"
    and "n \<equiv> line_count lineStrip is"
  assumes nonempty: "lineStrip \<longrightarrow> is \<noteq> []"
    and in_buffer: "\<forall>i\<in>set is. (unat i + 1) * S \<le> length (vertices m)"
    and pos: "unat (offset (getAttribute (vertexDesc m) Position)) + P \<le> S"
    and buffer_small: "length (vertices m) < 2 ^ 31"
    and stride_small: "S + P + 4 < 2 ^ 31"
    and output_small: "(S + P + 4) * (4 * n) < 2 ^ 31"
  shows "\<exists>g. createLinePrimitiveGroup m lineStrip is = Some g \<and>
     vertexOverride g = Some (concat (map (expanded_segment m lineStrip is) [0..<n])) \<and>
     (\<forall>k<n. length (expanded_segment m lineStrip is k) = 4 * (S + P + 4)) \<and>
     indicesOverride g = concat (map segment_triangles [0..<n]) \<and>
     unat (vertexCountOverride g) = 4 * n \<and>
     primOverride g = TriList \<and>
     attributes (vertexDescriptionOverride g) =
       attributes (vertexDesc m) @
         [\<lparr>semantic = NextPosition, format = format (getAttribute (vertexDesc m) Position),
           offset = stride (vertexDesc m)\<rparr>,
          \<lparr>semantic = ScaleFactor, format = Float1,
           offset = stride (vertexDesc m) +
                    getFormatSize (format (getAttribute (vertexDesc m) Position))\<rparr>] \<and>
     unat (stride (vertexDescriptionOverride g)) = S + P + 4"
proof -
  let ?O = "unat (offset (getAttribute (vertexDesc m) Position))"
  let ?N = "length is"
  have S_small: "S < 2 ^ 31" and O_small: "?O < 2 ^ 31"
    using stride_small pos by simp_all
  have "16 * n \<le> (S + P + 4) * (4 * n)" by simp
  then have n16: "16 * n < 2 ^ 31" using output_small by linarith
  have N_le: "?N \<le> 2 * n + 1"
  proof (cases lineStrip)
    case True
    have "?N \<le> 2 * (?N - 1) + 1" by arith
    then show ?thesis using True by (simp add: n_def line_count_def)
  next
    case False
    have "?N \<le> 2 * (?N div 2) + 1" by arith
    then show ?thesis using False by (simp add: n_def line_count_def)
  qed
  have N_small: "?N < 2 ^ 31" using n16 N_le by simp
  have sS: "sint (stride (vertexDesc m)) = int S"
    unfolding S_def using S_small [unfolded S_def] by (rule sint_small)
  have sO: "sint (offset (getAttribute (vertexDesc m) Position)) = int ?O"
    using O_small by (rule sint_small)
  have sP: "sint (getFormatSize (format (getAttribute (vertexDesc m) Position))) = int P"
    unfolding P_def by (rule sint_format_size)
  have sn: "(if lineStrip then sint (of_nat ?N - 1 :: uint)
             else sint (of_nat (?N div 2) :: uint)) = int n"
  proof (cases lineStrip)
    case True
    then have "1 \<le> ?N" using nonempty by (cases "is") simp_all
    then have "sint (of_nat ?N - 1 :: uint) = int (?N - 1)"
      using N_small by (rule sint_pred_of_nat)
    then show ?thesis using True by (simp add: n_def line_count_def)
  next
    case False
    have "?N div 2 < 2 ^ 31" using N_small by simp
    then have "sint (of_nat (?N div 2) :: uint) = int (?N div 2)"
      by (rule sint_of_nat_small)
    then show ?thesis using False by (simp add: n_def line_count_def)
  qed
  have "S + P < 2 ^ 31" using stride_small by simp
  then have c1: "c_int (int S + int P) = Some (int (S + P))"
    using c_int_small [of "S + P"] by simp
  have "(of_int (int (S + P)) + 4 :: uint) = of_nat (S + P + 4)" by simp
  then have c1': "sint (of_int (int (S + P)) + 4 :: uint) = int (S + P + 4)"
    using stride_small by (simp only: sint_of_nat_small)
  have "6 * n < 2 ^ 31" using n16 by simp
  then have c2: "c_int (6 * int n) = Some (int (6 * n))"
    using c_int_small [of "6 * n"] by simp
  have "4 * n < 2 ^ 31" using n16 by simp
  then have c3: "c_int (4 * int n) = Some (int (4 * n))"
    using c_int_small [of "4 * n"] by simp
  have c4: "c_int (int (S + P + 4) * int (4 * n)) = Some (int ((S + P + 4) * (4 * n)))"
    using c_int_small [OF output_small] by simp
  have loop: "line_loop (vertices m) (int S) (int ?O) (int P) lineStrip is (int n) 0 [] [] =
      Some (concat (map (expanded_segment m lineStrip is) [0..<n]),
            concat (map segment_triangles [0..<n]))"
    using line_loop_run [OF in_buffer [unfolded S_def] pos [unfolded S_def P_def]
        buffer_small n_def [THEN meta_eq_to_obj_eq], of 0 "[]" "[]"]
    by (simp add: S_def P_def)
  define g where "g = PrimitiveGroup_new
     \<lparr>vertexOverride := Some (concat (map (expanded_segment m lineStrip is) [0..<n])),
      vertexCountOverride := of_int (int (4 * n)),
      vertexDescriptionOverride := appendingAttributes (vertexDesc m)
        [\<lparr>semantic = NextPosition, format = format (getAttribute (vertexDesc m) Position),
          offset = of_int (int S)\<rparr>,
         \<lparr>semantic = ScaleFactor, format = Float1, offset = of_int (int S + int P)\<rparr>],
      indicesOverride := concat (map segment_triangles [0..<n]),
      primOverride := TriList\<rparr>"
  have run: "createLinePrimitiveGroup m lineStrip is = Some g"
    unfolding createLinePrimitiveGroup_def Let_def sS sO sP sn
    by (simp only: c1 c1' c2 c3 c4 Option.bind.simps loop g_def) (simp add: not_less)
  have oS: "(of_nat S :: uint) = stride (vertexDesc m)"
    by (simp add: S_def)
  have oP: "(of_nat P :: uint) = getFormatSize (format (getAttribute (vertexDesc m) Position))"
    by (simp add: P_def)
  have count: "unat (vertexCountOverride g) = 4 * n"
  proof -
    have "4 * n < 2 ^ 32" using n16 by simp
    then have "unat (of_nat (4 * n) :: uint) = 4 * n" by (rule unat_of_nat32)
    then show ?thesis by (simp add: g_def)
  qed
  have str: "unat (stride (vertexDescriptionOverride g)) = S + P + 4"
  proof -
    have "stride (vertexDescriptionOverride g) =
        stride (vertexDesc m) + (getFormatSize (format (getAttribute (vertexDesc m) Position)) + 4)"
      by (simp add: g_def appendingAttributes_eq)
    also have "\<dots> = of_nat (S + P + 4)"
      by (simp add: S_def P_def)
    finally have "unat (stride (vertexDescriptionOverride g)) = unat (of_nat (S + P + 4) :: uint)"
      by (rule arg_cong)
    also have "\<dots> = S + P + 4"
      using stride_small by (intro unat_of_nat32) simp
    finally show ?thesis .
  qed
  have len: "\<forall>k<n. length (expanded_segment m lineStrip is k) = 4 * (S + P + 4)"
    using expanded_segment_length [OF in_buffer [unfolded S_def] pos [unfolded S_def P_def]]
    by (simp add: S_def P_def n_def)
  show ?thesis
    using run count str len
    by (simp add: g_def appendingAttributes_eq oS oP)
qed


lemma segment_mesh_layout:
  "stride (vertexDesc segment_mesh) = 12"
  "getAttribute (vertexDesc segment_mesh) Position =
     \<lparr>semantic = Position, format = Float3, offset = 0\<rparr>"
  "length (vertices segment_mesh) = 24"
  by (simp_all add: segment_mesh_def getAttribute_def VertexDescription_new_def
        buildSemanticMap_def)

lemma line_expansion_of_segment:
  "\<exists>g. createLinePrimitiveGroup segment_mesh False [0, 1] = Some g \<and>
     vertexOverride g =
       Some [0, 0, 0, 0, 0, 0, 0, 0, 0, 0, 0, 0,
               0, 0, 0x80, 0x3F, 0, 0, 0, 0, 0, 0, 0, 0,   0, 0, 0, 0xBF,
             0, 0, 0, 0, 0, 0, 0, 0, 0, 0, 0, 0,
               0, 0, 0x80, 0x3F, 0, 0, 0, 0, 0, 0, 0, 0,   0, 0, 0, 0x3F,
             0, 0, 0x80, 0x3F, 0, 0, 0, 0, 0, 0, 0, 0,
               0, 0, 0, 0, 0, 0, 0, 0, 0, 0, 0, 0,   0, 0, 0, 0xBF,
             0, 0, 0x80, 0x3F, 0, 0, 0, 0, 0, 0, 0, 0,
               0, 0, 0, 0, 0, 0, 0, 0, 0, 0, 0, 0,   0, 0, 0, 0x3F] \<and>
     indicesOverride g = [0, 1, 2, 2, 3, 0] \<and>
     unat (vertexCountOverride g) = 4 \<and>
     primOverride g = TriList \<and>
     unat (stride (vertexDescriptionOverride g)) = 28"
proof -
  have n: "line_count False [0, 1 :: index32] = 1"
    by (simp add: line_count_def)
  have seg: "expanded_segment segment_mesh False [0, 1] 0 =
       [0, 0, 0, 0, 0, 0, 0, 0, 0, 0, 0, 0,
          0, 0, 0x80, 0x3F, 0, 0, 0, 0, 0, 0, 0, 0,   0, 0, 0, 0xBF,
        0, 0, 0, 0, 0, 0, 0, 0, 0, 0, 0, 0,
          0, 0, 0x80, 0x3F, 0, 0, 0, 0, 0, 0, 0, 0,   0, 0, 0, 0x3F,
        0, 0, 0x80, 0x3F, 0, 0, 0, 0, 0, 0, 0, 0,
          0, 0, 0, 0, 0, 0, 0, 0, 0, 0, 0, 0,   0, 0, 0, 0xBF,
        0, 0, 0x80, 0x3F, 0, 0, 0, 0, 0, 0, 0, 0,
          0, 0, 0, 0, 0, 0, 0, 0, 0, 0, 0, 0,   0, 0, 0, 0x3F]"
    by (simp add: expanded_segment_def segment_ends_def expanded_vertex_def vertex_record_def
          vertex_position_def segment_mesh_layout minus_half_def plus_half_def f32_bytes_def)
      (simp add: segment_mesh_def)
  have tri: "segment_triangles 0 = [0, 1, 2, 2, 3, 0]"
    by (simp add: segment_triangles_def)
  have "\<exists>g. createLinePrimitiveGroup segment_mesh False [0, 1] = Some g \<and>
     vertexOverride g =
       Some (concat (map (expanded_segment segment_mesh False [0, 1])
               [0..<line_count False [0, 1]])) \<and>
     (\<forall>k<line_count False [0, 1].
        length (expanded_segment segment_mesh False [0, 1] k) =
        4 * (unat (stride (vertexDesc segment_mesh)) +
             unat (getFormatSize (format (getAttribute (vertexDesc segment_mesh) Position))) +
             4)) \<and>
     indicesOverride g = concat (map segment_triangles [0..<line_count False [0, 1]]) \<and>
     unat (vertexCountOverride g) = 4 * line_count False [0, 1] \<and>
     primOverride g = TriList \<and>
     attributes (vertexDescriptionOverride g) =
       attributes (vertexDesc segment_mesh) @
         [\<lparr>semantic = NextPosition,
           format = format (getAttribute (vertexDesc segment_mesh) Position),
           offset = stride (vertexDesc segment_mesh)\<rparr>,
          \<lparr>semantic = ScaleFactor, format = Float1,
           offset = stride (vertexDesc segment_mesh) +
                    getFormatSize (format (getAttribute (vertexDesc segment_mesh) Position))\<rparr>] \<and>
     unat (stride (vertexDescriptionOverride g)) =
       unat (stride (vertexDesc segment_mesh)) +
       unat (getFormatSize (format (getAttribute (vertexDesc segment_mesh) Position))) + 4"
    by (rule line_expansion_output) (simp_all add: segment_mesh_layout n)
  then show ?thesis
    by (auto simp: n seg tri segment_mesh_layout)
qed

text \<open>
  For a strip without indices \<^verbatim>\<open>lineCount\<close> is \<^verbatim>\<open>indices.size() - 1\<close> converted to \<^verbatim>\<open>int\<close>,
  which is \<open>-1\<close>; the size of the array \<^verbatim>\<open>new\<close> is then negative, and no group is returned.
\<close>

lemma createLinePrimitiveGroup_empty_strip:
  assumes "unat (stride (vertexDesc m)) +
           unat (getFormatSize (format (getAttribute (vertexDesc m) Position))) + 4 < 2 ^ 31"
  shows "createLinePrimitiveGroup m True [] = None"
proof -
  define a where "a = unat (stride (vertexDesc m))"
  define b where "b = unat (getFormatSize (format (getAttribute (vertexDesc m) Position)))"
  have small: "a + b + 4 < 2 ^ 31" using assms by (simp add: a_def b_def)
  then have "a < 2 ^ 31" by simp
  then have s: "sint (stride (vertexDesc m)) = int a"
    unfolding a_def by (rule sint_small)
  have p: "sint (getFormatSize (format (getAttribute (vertexDesc m) Position))) = int b"
    unfolding b_def by (rule sint_format_size)
  have n: "sint (of_nat (length ([] :: index32 list)) - 1 :: uint) = - 1"
    by simp
  have "a + b < 2 ^ 31" using small by simp
  then have c1: "c_int (int a + int b) = Some (int (a + b))"
    using c_int_small [of "a + b"] by simp
  have "(of_int (int (a + b)) + 4 :: uint) = of_nat (a + b + 4)" by simp
  then have c1': "sint (of_int (int (a + b)) + 4 :: uint) = int (a + b + 4)"
    using small by (simp only: sint_of_nat_small)
  have neg: "int (a + b + 4) * (4 * - 1) < 0" by simp
  show ?thesis
    unfolding createLinePrimitiveGroup_def Let_def s p n if_True
    by (simp only: c1 c1' Option.bind.simps)
      (auto simp: c_int_def split: Option.bind_splits if_splits)
qed

text \<open>
  C4. Line expansion of a line strip of \<open>N = 0\<close> indices: the code computes the segment
  count \<open>N - 1\<close> in \<^verbatim>\<open>size_t\<close> and converts it to \<^verbatim>\<open>int\<close>, so \<^verbatim>\<open>lineCount\<close> is \<open>-1\<close>,
  \<^verbatim>\<open>lineVertexCount\<close> is \<open>-4\<close>, and the array size \<^verbatim>\<open>stride * lineVertexCount\<close> is negative:
  the allocation fails and neither \<^verbatim>\<open>createLinePrimitiveGroup\<close> nor the \<^verbatim>\<open>addGroup\<close> that
  calls it returns a group, where a strip without segments should expand to a group of
  no vertices and no indices. (Lemma \<open>line_expansion_output\<close> gives the output for
  line lists and for strips of at least one index.)
\<close>

theorem line_expansion_fails_on_empty_strip:
  "sint (of_nat (length ([] :: index32 list)) - 1 :: uint) = - 1 \<and>
   createLinePrimitiveGroup segment_mesh True [] = None \<and>
   addGroup_indices segment_mesh LineStrip 0 [] = None"
proof -
  have "createLinePrimitiveGroup segment_mesh True [] = None"
    by (rule createLinePrimitiveGroup_empty_strip) (simp add: segment_mesh_layout)
  then show ?thesis
    by (simp add: addGroup_indices_def)
qed

section \<open>Reading and writing floats in a buffer\<close>

lemma bytes_f32_f32_bytes [simp]: "bytes_f32 (f32_bytes w) = w"
  unfolding bytes_f32_def f32_bytes_def list.case
proof (rule bit_word_eqI)
  fix n assume "n < LENGTH(32)"
  then have n: "n < 32" by simp
  consider "n < 8" | "8 \<le> n" "n < 16" | "16 \<le> n" "n < 24" | "24 \<le> n" by linarith
  then show "bit (ucast (ucast w :: byte) OR push_bit 8 (ucast (ucast (drop_bit 8 w) :: byte)) OR
       push_bit 16 (ucast (ucast (drop_bit 16 w) :: byte)) OR
       push_bit 24 (ucast (ucast (drop_bit 24 w) :: byte)) :: f32) n = bit w n"
    using n by cases (auto simp: bit_simps)
qed

lemma length_f32_bytes [simp]: "length (f32_bytes w) = 4"
  by (simp add: f32_bytes_def)

lemma length_vec3_bytes [simp]: "length (vec3_bytes v) = 12"
  by (simp add: vec3_bytes_def split: prod.splits)

lemma bytes_vec3_vec3_bytes [simp]: "bytes_vec3 (vec3_bytes v) = v"
  by (simp add: vec3_bytes_def bytes_vec3_def split: prod.splits)

lemma memwrite_int:
  "x + length bs \<le> length buf \<Longrightarrow>
     memwrite buf (int x) bs = Some (take x buf @ bs @ drop (x + length bs) buf)"
  by (simp add: memwrite_def)

lemma read_float_int:
  assumes "x + 4 \<le> length buf"
  shows "read_float buf (int x) = Some (bytes_f32 (take 4 (drop x buf)))"
  using memread_int [OF assms] by (simp add: read_float_def)

lemma read_vec3_int:
  assumes "x + 12 \<le> length buf"
  shows "read_vec3 buf (int x) = Some (bytes_vec3 (take 12 (drop x buf)))"
proof -
  have a: "read_float buf (int x) = Some (bytes_f32 (take 4 (drop x buf)))"
    using assms by (intro read_float_int) simp
  have b: "read_float buf (int x + 4) = Some (bytes_f32 (take 4 (drop (x + 4) buf)))"
    using assms read_float_int [of "x + 4" buf] by (simp add: add.commute)
  have c: "read_float buf (int x + 8) = Some (bytes_f32 (take 4 (drop (x + 8) buf)))"
    using assms read_float_int [of "x + 8" buf] by (simp add: add.commute)
  have t4: "take 4 (drop 4 (take 12 (drop x buf))) = take 4 (drop (x + 4) buf)"
    by (simp add: drop_take add.commute)
  have t8: "take 4 (drop 8 (take 12 (drop x buf))) = take 4 (drop (x + 8) buf)"
    by (simp add: drop_take add.commute)
  show ?thesis
    unfolding read_vec3_def a b c bytes_vec3_def t4 t8 by simp
qed

lemma write_vec3_int:
  assumes "x + 12 \<le> length buf"
  shows "write_vec3 buf (int x) v = Some (take x buf @ vec3_bytes v @ drop (x + 12) buf)"
proof -
  obtain a b c where v: "v = (a, b, c)" by (cases v)
  define b1 where "b1 = take x buf @ f32_bytes a @ drop (x + 4) buf"
  define b2 where "b2 = take x buf @ f32_bytes a @ f32_bytes b @ drop (x + 8) buf"
  have w1: "write_float buf (int x) a = Some b1"
    using assms memwrite_int [of x "f32_bytes a" buf] by (simp add: write_float_def b1_def)
  have l1: "length b1 = length buf"
    using assms by (simp add: b1_def)
  have "memwrite b1 (int (x + 4)) (f32_bytes b) =
      Some (take (x + 4) b1 @ f32_bytes b @ drop (x + 4 + length (f32_bytes b)) b1)"
    using assms l1 by (intro memwrite_int) simp
  moreover have "take (x + 4) b1 = take x buf @ f32_bytes a"
    using assms by (simp add: b1_def)
  moreover have "drop (x + 8) b1 = drop (x + 8) buf"
    using assms by (simp add: b1_def add.commute)
  ultimately have w2: "write_float b1 (int x + 4) b = Some b2"
    by (simp add: write_float_def b2_def add.commute)
  have l2: "length b2 = length buf"
    using assms by (simp add: b2_def)
  have "memwrite b2 (int (x + 8)) (f32_bytes c) =
      Some (take (x + 8) b2 @ f32_bytes c @ drop (x + 8 + length (f32_bytes c)) b2)"
    using assms l2 by (intro memwrite_int) simp
  moreover have "take (x + 8) b2 = take x buf @ f32_bytes a @ f32_bytes b"
    using assms by (simp add: b2_def)
  moreover have "drop (x + 12) b2 = drop (x + 12) buf"
    using assms by (simp add: b2_def add.commute)
  ultimately have w3: "write_float b2 (int x + 8) c =
      Some (take x buf @ f32_bytes a @ f32_bytes b @ f32_bytes c @ drop (x + 12) buf)"
    by (simp add: write_float_def add.commute)
  show ?thesis
    by (simp add: write_vec3_def v w1 w2 w3 vec3_bytes_def)
qed

lemma transform_vec3_patch:
  assumes "x + 12 \<le> length buf"
  shows "transform_vec3 fadd fmul translation scale buf (int x) =
     Some (patch buf x 12
            (\<lambda>bs. vec3_bytes (translate_scale fadd fmul translation scale (bytes_vec3 bs))))"
  by (simp add: transform_vec3_def read_vec3_int [OF assms] write_vec3_int [OF assms] patch_def)

lemma scale_float_patch:
  assumes "x + 4 \<le> length buf"
  shows "scale_float fmul scale buf (int x) =
     Some (patch buf x 4 (\<lambda>bs. f32_bytes (fmul (bytes_f32 bs) scale)))"
  using memwrite_int [of x "f32_bytes (fmul (bytes_f32 (take 4 (drop x buf))) scale)" buf] assms
  by (simp add: scale_float_def read_float_int [OF assms] write_float_def patch_def)


lemma length_patch:
  assumes "x + w \<le> length buf" and "length (f (take w (drop x buf))) = w"
  shows "length (patch buf x w f) = length buf"
  using assms by (simp add: patch_def)

lemma patch_window:
  assumes "x + w \<le> length buf" and "length (f (take w (drop x buf))) = w"
  shows "take w (drop x (patch buf x w f)) = f (take w (drop x buf))"
  using assms by (simp add: patch_def)

lemma patch_before:
  assumes "x + w \<le> length buf" and "y + n \<le> x"
  shows "take n (drop y (patch buf x w f)) = take n (drop y buf)"
proof -
  have "take n (drop y (patch buf x w f)) = take n (drop y (take x buf))"
    using assms by (simp add: patch_def)
  also have "\<dots> = take n (drop y buf)"
    using assms by (simp add: drop_take)
  finally show ?thesis .
qed

lemma patch_after:
  assumes "x + w \<le> length buf" and "length (f (take w (drop x buf))) = w" and "x + w \<le> y"
  shows "drop y (patch buf x w f) = drop y buf"
proof -
  obtain k where y: "y = x + w + k" using assms(3) by (metis le_Suc_ex)
  have "drop y (patch buf x w f) = drop k (drop (x + w) buf)"
    using assms(1,2) by (simp add: patch_def y)
  then show ?thesis by (simp add: y add.commute)
qed

lemma patch_nest:
  assumes "off + w \<le> S" and "x + S \<le> length buf"
  shows "patch buf (x + off) w f = patch buf x S (\<lambda>r. patch r off w f)"
proof -
  define r where "r = take S (drop x buf)"
  have lr: "length r = S" using assms(2) by (simp add: r_def)
  have lx: "length (take x buf) = x" using assms(2) by simp
  have "off \<le> S" using assms(1) by simp
  then have 1: "take (x + off) buf = take x buf @ take off r"
    by (simp add: r_def take_add min_def)
  have 2: "take w (drop (x + off) buf) = take w (drop off r)"
    using assms(1) by (simp add: r_def drop_take add.commute)
  have 3: "drop (x + off + w) buf = drop (off + w) r @ drop (x + S) buf"
  proof -
    have "drop (x + off + w) buf = drop (off + w) (drop x buf)"
      by (simp add: add.commute add.left_commute)
    also have "drop x buf = r @ drop (x + S) buf"
      by (simp add: r_def add.commute flip: drop_drop)
    also have "drop (off + w) (r @ drop (x + S) buf) = drop (off + w) r @ drop (x + S) buf"
      using assms(1) lr by simp
    finally show ?thesis .
  qed
  show ?thesis
    unfolding patch_def 1 2 3 r_def [symmetric] by simp
qed

lemma patch_patch:
  assumes "x + S \<le> length buf" and "length (f1 (take S (drop x buf))) = S"
  shows "patch (patch buf x S f1) x S f2 = patch buf x S (\<lambda>r. f2 (f1 r))"
  using assms by (simp add: patch_def)


lemma for_each_vertex_records:
  assumes spec: "\<And>buf x. x + S \<le> length buf \<Longrightarrow>
                   body buf (int (x + off)) = Some (patch buf x S f)"
    and lenf: "\<And>r. length r = S \<Longrightarrow> length (f r) = S"
    and fit: "x0 + n * S \<le> length buf"
  shows "\<exists>buf'. for_each_vertex body n (int (x0 + off)) (int S) buf = Some buf' \<and>
           length buf' = length buf \<and>
           take x0 buf' = take x0 buf \<and>
           drop (x0 + n * S) buf' = drop (x0 + n * S) buf \<and>
           (\<forall>i<n. take S (drop (x0 + i * S) buf') = f (take S (drop (x0 + i * S) buf)))"
  using fit
proof (induction n arbitrary: x0 buf)
  case 0
  show ?case by simp
next
  case (Suc n)
  define b1 where "b1 = patch buf x0 S f"
  have fit0: "x0 + S \<le> length buf" using Suc.prems by simp
  have lr: "length (f (take S (drop x0 buf))) = S"
    using fit0 by (intro lenf) simp
  have step: "body buf (int (x0 + off)) = Some b1"
    unfolding b1_def using fit0 by (rule spec)
  have l1: "length b1 = length buf"
    unfolding b1_def using fit0 lr by (rule length_patch)
  have "x0 + S + n * S \<le> length b1" using Suc.prems l1 by simp
  from Suc.IH [OF this] obtain buf' where
    run: "for_each_vertex body n (int (x0 + S + off)) (int S) b1 = Some buf'"
    and len: "length buf' = length b1"
    and pre: "take (x0 + S) buf' = take (x0 + S) b1"
    and post: "drop (x0 + S + n * S) buf' = drop (x0 + S + n * S) b1"
    and recs: "\<forall>i<n. take S (drop (x0 + S + i * S) buf') = f (take S (drop (x0 + S + i * S) b1))"
    by blast
  have next_addr: "int (x0 + off) + int S = int (x0 + S + off)" by simp
  have r1: "for_each_vertex body (Suc n) (int (x0 + off)) (int S) buf = Some buf'"
    by (simp only: for_each_vertex.simps step Option.bind.simps next_addr run)
  have after: "drop y b1 = drop y buf" if "x0 + S \<le> y" for y
    unfolding b1_def using fit0 lr that by (rule patch_after)
  have r3: "take x0 buf' = take x0 buf"
  proof -
    have "take x0 buf' = take x0 (take (x0 + S) buf')" by (simp add: min_def)
    also have "\<dots> = take x0 (take (x0 + S) b1)" by (simp only: pre)
    also have "\<dots> = take x0 b1" by (simp add: min_def)
    also have "\<dots> = take x0 buf" using fit0 by (simp add: b1_def patch_def)
    finally show ?thesis .
  qed
  have r4: "drop (x0 + Suc n * S) buf' = drop (x0 + Suc n * S) buf"
  proof -
    have e: "x0 + Suc n * S = x0 + S + n * S" by simp
    show ?thesis unfolding e post by (rule after) simp
  qed
  have r5: "take S (drop (x0 + i * S) buf') = f (take S (drop (x0 + i * S) buf))"
    if "i < Suc n" for i
  proof (cases i)
    case 0
    have "take S (drop x0 buf') = drop x0 (take (x0 + S) buf')"
      by (simp add: take_drop add.commute)
    also have "\<dots> = drop x0 (take (x0 + S) b1)" by (simp only: pre)
    also have "\<dots> = take S (drop x0 b1)" by (simp add: take_drop add.commute)
    also have "\<dots> = f (take S (drop x0 buf))"
      unfolding b1_def using fit0 lr by (rule patch_window)
    finally show ?thesis using 0 by simp
  next
    case (Suc j)
    then have j: "j < n" using that by simp
    have e: "x0 + i * S = x0 + S + j * S" using Suc by simp
    have "take S (drop (x0 + S + j * S) buf') = f (take S (drop (x0 + S + j * S) b1))"
      using recs j by blast
    also have "drop (x0 + S + j * S) b1 = drop (x0 + S + j * S) buf"
      by (rule after) simp
    finally show ?thesis unfolding e .
  qed
  show ?case
    using r1 len l1 r3 r4 r5 by (intro exI [of _ buf']) simp
qed

section \<open>Loops over the records of a buffer\<close>

lemma window_in_record:
  assumes "off + w \<le> S"
  shows "take w (drop off (take S (drop x buf))) = take w (drop (x + off) buf)"
proof -
  have "drop off (take S (drop x buf)) = take (S - off) (drop (x + off) buf)"
    by (simp add: drop_take add.commute)
  moreover have "min w (S - off) = w" using assms by simp
  ultimately show ?thesis by simp
qed

lemma transform_vec3_in_record:
  assumes "off + 12 \<le> S" and "x + S \<le> length buf"
  shows "transform_vec3 fadd fmul translation scale buf (int (x + off)) =
     Some (patch buf x S (\<lambda>r. patch r off 12
            (\<lambda>bs. vec3_bytes (translate_scale fadd fmul translation scale (bytes_vec3 bs)))))"
proof -
  have "x + off + 12 \<le> length buf" using assms by simp
  then show ?thesis
    by (simp only: transform_vec3_patch patch_nest [OF assms])
qed

lemma scale_float_in_record:
  assumes "off + 4 \<le> S" and "x + S \<le> length buf"
  shows "scale_float fmul scale buf (int (x + off)) =
     Some (patch buf x S (\<lambda>r. patch r off 4 (\<lambda>bs. f32_bytes (fmul (bytes_f32 bs) scale))))"
proof -
  have "x + off + 4 \<le> length buf" using assms by simp
  then show ?thesis
    by (simp only: scale_float_patch patch_nest [OF assms])
qed

lemma length_patch_vec3:
  assumes "off + 12 \<le> length r"
  shows "length (patch r off 12 (\<lambda>bs. vec3_bytes (g (bytes_vec3 bs)))) = length r"
  using assms by (intro length_patch) simp_all

lemma length_patch_float:
  assumes "off + 4 \<le> length r"
  shows "length (patch r off 4 (\<lambda>bs. f32_bytes (h (bytes_f32 bs)))) = length r"
  using assms by (intro length_patch) simp_all

lemma override_body_in_record:
  assumes p: "offP + 12 \<le> S" and q: "offQ + 12 \<le> S" and fit: "x + S \<le> length buf"
  shows "Option.bind
           (transform_vec3 fadd fmul translation scale buf (int x + int offP))
           (\<lambda>buf'. transform_vec3 fadd fmul translation scale buf' (int x + int offQ)) =
         Some (patch buf x S
                (\<lambda>r. patch
                       (patch r offP 12
                          (\<lambda>bs. vec3_bytes
                                  (translate_scale fadd fmul translation scale (bytes_vec3 bs))))
                       offQ 12
                       (\<lambda>bs. vec3_bytes
                               (translate_scale fadd fmul translation scale (bytes_vec3 bs)))))"
proof -
  let ?g = "\<lambda>bs. vec3_bytes (translate_scale fadd fmul translation scale (bytes_vec3 bs))"
  define b1 where "b1 = patch buf x S (\<lambda>r. patch r offP 12 ?g)"
  have lr: "length (patch (take S (drop x buf)) offP 12 ?g) = S"
    using p fit length_patch_vec3 [of offP "take S (drop x buf)"
        "translate_scale fadd fmul translation scale"]
    by simp
  have l1: "length b1 = length buf"
    unfolding b1_def using fit lr by (rule length_patch)
  have s1: "transform_vec3 fadd fmul translation scale buf (int x + int offP) = Some b1"
    using transform_vec3_in_record [OF p fit] by (simp add: b1_def)
  have fit1: "x + S \<le> length b1" using fit l1 by simp
  have s2: "transform_vec3 fadd fmul translation scale b1 (int x + int offQ) =
      Some (patch b1 x S (\<lambda>r. patch r offQ 12 ?g))"
    using transform_vec3_in_record [OF q fit1] by simp
  have "patch b1 x S (\<lambda>r. patch r offQ 12 ?g) =
      patch buf x S (\<lambda>r. patch (patch r offP 12 ?g) offQ 12 ?g)"
    unfolding b1_def using fit lr by (rule patch_patch)
  then show ?thesis by (simp add: s1 s2)
qed


lemma record_fits:
  assumes "i < n" and "n * S \<le> length buf"
  shows "i * S + S \<le> length (buf :: byte list)"
proof -
  have "Suc i * S \<le> n * S" using assms(1) by (intro mult_le_mono1) simp
  then show ?thesis using assms(2) by simp
qed

lemma read_vec3_of_record:
  assumes rec: "take S (drop (i * S) buf') = r'"
    and win: "take 12 (drop off r') = vec3_bytes v"
    and off: "off + 12 \<le> S" and fit: "i * S + S \<le> length buf'"
  shows "read_vec3 buf' (int (i * S + off)) = Some v"
proof -
  have "i * S + off + 12 \<le> length buf'" using off fit by simp
  then have "read_vec3 buf' (int (i * S + off)) =
      Some (bytes_vec3 (take 12 (drop (i * S + off) buf')))"
    by (rule read_vec3_int)
  also have "take 12 (drop (i * S + off) buf') = take 12 (drop off (take S (drop (i * S) buf')))"
    using window_in_record [OF off, of "i * S" buf'] by simp
  finally show ?thesis by (simp add: rec win)
qed

lemma read_vec3_old:
  assumes off: "off + 12 \<le> S" and fit: "i * S + S \<le> length buf"
  shows "read_vec3 buf (int (i * S + off)) =
     Some (bytes_vec3 (take 12 (drop off (take S (drop (i * S) buf)))))"
proof -
  have "i * S + off + 12 \<le> length buf" using off fit by simp
  then have "read_vec3 buf (int (i * S + off)) =
      Some (bytes_vec3 (take 12 (drop (i * S + off) buf)))"
    by (rule read_vec3_int)
  also have "take 12 (drop (i * S + off) buf) = take 12 (drop off (take S (drop (i * S) buf)))"
    using window_in_record [OF off, of "i * S" buf] by simp
  finally show ?thesis .
qed

lemma transform_group_override:
  assumes ov: "vertexOverride g = Some vdata" and wf: "override_well_formed g"
  shows "\<exists>g'. transform_group fadd fmul translation scale g = Some g' \<and>
     override_transformed (translate_scale fadd fmul translation scale) g g'"
proof -
  let ?xf = "translate_scale fadd fmul translation scale"
  let ?g = "\<lambda>bs. vec3_bytes (?xf (bytes_vec3 bs))"
  define desc where "desc = vertexDescriptionOverride g"
  define S where "S = unat (stride desc)"
  define offP where "offP = unat (offset (getAttribute desc Position))"
  define offQ where "offQ = unat (offset (getAttribute desc NextPosition))"
  define n where "n = unat (vertexCountOverride g)"
  define f where "f = (\<lambda>r. patch (patch r offP 12 ?g) offQ 12 ?g)"
  from wf ov have p: "offP + 12 \<le> S" and q: "offQ + 12 \<le> S"
    and apart: "offP + 12 \<le> offQ \<or> offQ + 12 \<le> offP"
    and small: "S < 2 ^ 31" and fit: "n * S \<le> length vdata"
    by (simp_all add: override_well_formed_def Let_def desc_def S_def offP_def offQ_def n_def)
  have sP: "sint (offset (getAttribute desc Position)) = int offP"
    unfolding offP_def using p small by (intro sint_small) (simp add: offP_def)
  have sQ: "sint (offset (getAttribute desc NextPosition)) = int offQ"
    unfolding offQ_def using q small by (intro sint_small) (simp add: offQ_def)
  have lenf: "length (f r) = S" if "length r = S" for r
  proof -
    have "length (patch r offP 12 ?g) = S"
      using p that length_patch_vec3 [of offP r ?xf] by simp
    then show ?thesis
      using q length_patch_vec3 [of offQ "patch r offP 12 ?g" ?xf] by (simp add: f_def)
  qed
  have spec: "Option.bind (transform_vec3 fadd fmul translation scale buf (int (x + 0) + int offP))
        (\<lambda>buf'. transform_vec3 fadd fmul translation scale buf' (int (x + 0) + int offQ)) =
      Some (patch buf x S f)" if "x + S \<le> length buf" for buf x
    using override_body_in_record [OF p q that] by (simp add: f_def)
  from for_each_vertex_records [where body = "\<lambda>buf addr.
        Option.bind (transform_vec3 fadd fmul translation scale buf (addr + int offP))
          (\<lambda>buf'. transform_vec3 fadd fmul translation scale buf' (addr + int offQ))"
      and off = 0 and ?x0.0 = 0 and S = S and f = f and n = n and buf = vdata,
      OF spec lenf]
    fit
  obtain vdata' where
    run: "for_each_vertex (\<lambda>buf addr.
        Option.bind (transform_vec3 fadd fmul translation scale buf (addr + int offP))
          (\<lambda>buf'. transform_vec3 fadd fmul translation scale buf' (addr + int offQ)))
        n 0 (int S) vdata = Some vdata'"
    and len: "length vdata' = length vdata"
    and recs: "\<forall>i<n. take S (drop (i * S) vdata') = f (take S (drop (i * S) vdata))"
    by auto
  have tg: "transform_group fadd fmul translation scale g = Some (g\<lparr>vertexOverride := Some vdata'\<rparr>)"
    unfolding transform_group_def ov option.case Let_def
    using run
    by (simp add: desc_def [symmetric] sP sQ S_def [symmetric] n_def [symmetric] uint_nat)
  have reads: "read_vec3 vdata' (int (j * S + offP)) =
        map_option ?xf (read_vec3 vdata (int (j * S + offP))) \<and>
      read_vec3 vdata' (int (j * S + offQ)) =
        map_option ?xf (read_vec3 vdata (int (j * S + offQ)))" if j: "j < n" for j
  proof -
    define r where "r = take S (drop (j * S) vdata)"
    have fitj: "j * S + S \<le> length vdata" using j fit by (rule record_fits)
    have lr: "length r = S" using fitj by (simp add: r_def)
    define r1 where "r1 = patch r offP 12 ?g"
    have l1: "length r1 = S"
      using p lr length_patch_vec3 [of offP r ?xf] by (simp add: r1_def)
    have rec': "take S (drop (j * S) vdata') = patch r1 offQ 12 ?g"
      using recs j by (simp add: f_def r_def r1_def)
    have wq: "take 12 (drop offQ (patch r1 offQ 12 ?g)) = ?g (take 12 (drop offQ r1))"
      using q l1 by (intro patch_window) simp_all
    have q_r1: "take 12 (drop offQ r1) = take 12 (drop offQ r)"
      using apart
    proof
      assume "offP + 12 \<le> offQ"
      then have "drop offQ r1 = drop offQ r"
        unfolding r1_def using p lr by (intro patch_after) simp_all
      then show ?thesis by simp
    next
      assume "offQ + 12 \<le> offP"
      then show ?thesis
        unfolding r1_def using p lr by (intro patch_before) simp_all
    qed
    have wp1: "take 12 (drop offP r1) = ?g (take 12 (drop offP r))"
      unfolding r1_def using p lr by (intro patch_window) simp_all
    have wp: "take 12 (drop offP (patch r1 offQ 12 ?g)) = take 12 (drop offP r1)"
      using apart
    proof
      assume "offP + 12 \<le> offQ"
      then show ?thesis using q l1 by (intro patch_before) simp_all
    next
      assume "offQ + 12 \<le> offP"
      then have "drop offP (patch r1 offQ 12 ?g) = drop offP r1"
        using q l1 by (intro patch_after) simp_all
      then show ?thesis by simp
    qed
    have fitj': "j * S + S \<le> length vdata'" using fitj len by simp
    have newP: "read_vec3 vdata' (int (j * S + offP)) =
        Some (?xf (bytes_vec3 (take 12 (drop offP r))))"
      using rec' _ p fitj' by (rule read_vec3_of_record) (simp add: wp wp1)
    have newQ: "read_vec3 vdata' (int (j * S + offQ)) =
        Some (?xf (bytes_vec3 (take 12 (drop offQ r))))"
      using rec' _ q fitj' by (rule read_vec3_of_record) (simp add: wq q_r1)
    show ?thesis
      by (simp only: newP newQ read_vec3_old [OF p fitj] read_vec3_old [OF q fitj] r_def
            option.map simp_thms)
  qed
  have "override_transformed ?xf g (g\<lparr>vertexOverride := Some vdata'\<rparr>)"
    unfolding override_transformed_def ov option.case Let_def
    using reads
    by (auto simp: desc_def S_def offP_def offQ_def n_def)
  with tg show ?thesis by blast
qed

lemma transform_group_plain:
  assumes "vertexOverride g = None"
  shows "transform_group fadd fmul translation scale g = Some g \<and>
         override_transformed xf g g"
  using assms by (simp add: transform_group_def override_transformed_def)

lemma transform_groups_all:
  assumes "\<forall>g\<in>set gs. override_well_formed g"
  shows "\<exists>gs'. transform_groups fadd fmul translation scale gs = Some gs' \<and>
     list_all2 (override_transformed (translate_scale fadd fmul translation scale)) gs gs'"
  using assms
proof (induction gs)
  case Nil
  show ?case by simp
next
  case (Cons g gs)
  then obtain gs' where rest: "transform_groups fadd fmul translation scale gs = Some gs'"
    and rel: "list_all2 (override_transformed (translate_scale fadd fmul translation scale)) gs gs'"
    by auto
  have "\<exists>g'. transform_group fadd fmul translation scale g = Some g' \<and>
     override_transformed (translate_scale fadd fmul translation scale) g g'"
  proof (cases "vertexOverride g")
    case None
    then show ?thesis using transform_group_plain by blast
  next
    case (Some vdata)
    moreover have "override_well_formed g" using Cons.prems by simp
    ultimately show ?thesis by (rule transform_group_override)
  qed
  then obtain g' where "transform_group fadd fmul translation scale g = Some g'"
    and "override_transformed (translate_scale fadd fmul translation scale) g g'"
    by blast
  then show ?case using rest rel by simp
qed


lemma read_float_of_record:
  assumes rec: "take S (drop (i * S) buf') = r'"
    and win: "take 4 (drop off r') = f32_bytes v"
    and off: "off + 4 \<le> S" and fit: "i * S + S \<le> length buf'"
  shows "read_float buf' (int (i * S + off)) = Some v"
proof -
  have "i * S + off + 4 \<le> length buf'" using off fit by simp
  then have "read_float buf' (int (i * S + off)) =
      Some (bytes_f32 (take 4 (drop (i * S + off) buf')))"
    by (rule read_float_int)
  also have "take 4 (drop (i * S + off) buf') = take 4 (drop off (take S (drop (i * S) buf')))"
    using window_in_record [OF off, of "i * S" buf'] by simp
  finally show ?thesis by (simp add: rec win)
qed

lemma read_float_old:
  assumes off: "off + 4 \<le> S" and fit: "i * S + S \<le> length buf"
  shows "read_float buf (int (i * S + off)) =
     Some (bytes_f32 (take 4 (drop off (take S (drop (i * S) buf)))))"
proof -
  have "i * S + off + 4 \<le> length buf" using off fit by simp
  then have "read_float buf (int (i * S + off)) =
      Some (bytes_f32 (take 4 (drop (i * S + off) buf)))"
    by (rule read_float_int)
  also have "take 4 (drop (i * S + off) buf) = take 4 (drop off (take S (drop (i * S) buf)))"
    using window_in_record [OF off, of "i * S" buf] by simp
  finally show ?thesis .
qed


section \<open>The effect of \<open>transform\<close>\<close>

text \<open>
  The effect of \<^verbatim>\<open>transform\<close> in terms of the function \<open>translate_scale\<close> of the model, for
  a mesh whose position is a \<open>Float3\<close> field inside the record and whose vertex buffer
  holds \<^verbatim>\<open>nVertices\<close> records.
\<close>

lemma transform_effect:
  fixes m :: Mesh and translation :: vec3 and scale :: f32
  defines "S \<equiv> unat (stride (vertexDesc m))"
    and "offP \<equiv> unat (offset (getAttribute (vertexDesc m) Position))"
    and "offQ \<equiv> unat (offset (getAttribute (vertexDesc m) PointSize))"
    and "n \<equiv> unat (nVertices m)"
  assumes position: "format (getAttribute (vertexDesc m) Position) = Float3"
    and position_fits: "offP + 12 \<le> S"
    and buffer: "n * S \<le> length (vertices m)"
    and point_size: "format (getAttribute (vertexDesc m) PointSize) = Float1 \<longrightarrow>
                     offQ + 4 \<le> S \<and> (offQ + 4 \<le> offP \<or> offP + 12 \<le> offQ)"
    and overrides: "\<forall>g\<in>set (groups m). override_well_formed g"
  shows "\<exists>m'. transform fadd fmul m translation scale = Some m' \<and>
     (\<forall>i<n. read_vec3 (vertices m') (int (i * S + offP)) =
             map_option (translate_scale fadd fmul translation scale)
               (read_vec3 (vertices m) (int (i * S + offP)))) \<and>
     (format (getAttribute (vertexDesc m) PointSize) = Float1 \<longrightarrow>
        (\<forall>i<n. read_float (vertices m') (int (i * S + offQ)) =
                map_option (\<lambda>x. fmul x scale) (read_float (vertices m) (int (i * S + offQ))))) \<and>
     list_all2 (override_transformed (translate_scale fadd fmul translation scale))
       (groups m) (groups m') \<and>
     vertexDesc m' = vertexDesc m \<and> nVertices m' = nVertices m \<and> name m' = name m"
proof -
  let ?xf = "translate_scale fadd fmul translation scale"
  let ?g = "\<lambda>bs. vec3_bytes (?xf (bytes_vec3 bs))"
  let ?h = "\<lambda>bs. f32_bytes (fmul (bytes_f32 bs) scale)"
  let ?rec = "\<lambda>buf i. take S (drop (i * S) buf)"
  have uS: "uint (stride (vertexDesc m)) = int S"
    and uP: "uint (offset (getAttribute (vertexDesc m) Position)) = int (0 + offP)"
    and uQ: "uint (offset (getAttribute (vertexDesc m) PointSize)) = int (0 + offQ)"
    by (simp_all only: uint_nat S_def offP_def offQ_def add_0)
  have spec1: "transform_vec3 fadd fmul translation scale buf (int (x + offP)) =
      Some (patch buf x S (\<lambda>r. patch r offP 12 ?g))" if "x + S \<le> length buf" for buf x
    using position_fits that by (rule transform_vec3_in_record)
  have len1: "length (patch r offP 12 ?g) = S" if "length r = S" for r
    using position_fits that length_patch_vec3 [of offP r ?xf] by simp
  from for_each_vertex_records [where body = "transform_vec3 fadd fmul translation scale"
      and off = offP and ?x0.0 = 0 and S = S and n = n and buf = "vertices m",
      OF spec1 len1] buffer
  obtain vs where
    loop1: "for_each_vertex (transform_vec3 fadd fmul translation scale) n (int (0 + offP))
              (int S) (vertices m) = Some vs"
    and lvs: "length vs = length (vertices m)"
    and recs1: "\<forall>i<n. ?rec vs i = patch (?rec (vertices m) i) offP 12 ?g"
    by auto
  from transform_groups_all [OF overrides] obtain gs where
    groups: "transform_groups fadd fmul translation scale (groups m) = Some gs"
    and rel: "list_all2 (override_transformed ?xf) (groups m) gs"
    by blast
  have "\<exists>vs'. (if format (getAttribute (vertexDesc m) PointSize) = Float1
           then for_each_vertex (scale_float fmul scale) n (int (0 + offQ)) (int S) vs
           else Some vs) = Some vs' \<and>
     length vs' = length vs \<and>
     (\<forall>i<n. take 12 (drop offP (?rec vs' i)) = take 12 (drop offP (?rec vs i))) \<and>
     (format (getAttribute (vertexDesc m) PointSize) = Float1 \<longrightarrow>
        (\<forall>i<n. take 4 (drop offQ (?rec vs' i)) = ?h (take 4 (drop offQ (?rec vs i)))))"
  proof (cases "format (getAttribute (vertexDesc m) PointSize) = Float1")
    case False
    then show ?thesis by simp
  next
    case True
    with point_size have q: "offQ + 4 \<le> S"
      and apart: "offQ + 4 \<le> offP \<or> offP + 12 \<le> offQ"
      by simp_all
    have spec2: "scale_float fmul scale buf (int (x + offQ)) =
        Some (patch buf x S (\<lambda>r. patch r offQ 4 ?h))" if "x + S \<le> length buf" for buf x
      using q that by (rule scale_float_in_record)
    have len2: "length (patch r offQ 4 ?h) = S" if "length r = S" for r
      using q that length_patch_float [of offQ r "\<lambda>x. fmul x scale"] by simp
    have "0 + n * S \<le> length vs" using buffer lvs by simp
    from for_each_vertex_records [where body = "scale_float fmul scale"
        and off = offQ and ?x0.0 = 0 and S = S and n = n and buf = vs, OF spec2 len2 this]
    obtain vs' where
      loop2: "for_each_vertex (scale_float fmul scale) n (int (0 + offQ)) (int S) vs = Some vs'"
      and lvs': "length vs' = length vs"
      and recs2: "\<forall>i<n. ?rec vs' i = patch (?rec vs i) offQ 4 ?h"
      by auto
    have a: "take 12 (drop offP (?rec vs' i)) = take 12 (drop offP (?rec vs i))"
      and b: "take 4 (drop offQ (?rec vs' i)) = ?h (take 4 (drop offQ (?rec vs i)))"
      if i: "i < n" for i
    proof -
      have "i * S + S \<le> length vs" using i buffer lvs record_fits [of i n S vs] by simp
      then have lr: "length (?rec vs i) = S" by simp
      have e: "?rec vs' i = patch (?rec vs i) offQ 4 ?h" using recs2 i by blast
      show "take 4 (drop offQ (?rec vs' i)) = ?h (take 4 (drop offQ (?rec vs i)))"
        unfolding e using q lr by (intro patch_window) simp_all
      show "take 12 (drop offP (?rec vs' i)) = take 12 (drop offP (?rec vs i))"
        unfolding e using apart
      proof
        assume "offQ + 4 \<le> offP"
        then have "drop offP (patch (?rec vs i) offQ 4 ?h) = drop offP (?rec vs i)"
          using q lr by (intro patch_after) simp_all
        then show "take 12 (drop offP (patch (?rec vs i) offQ 4 ?h)) =
            take 12 (drop offP (?rec vs i))"
          by simp
      next
        assume "offP + 12 \<le> offQ"
        then show "take 12 (drop offP (patch (?rec vs i) offQ 4 ?h)) =
            take 12 (drop offP (?rec vs i))"
          using q lr by (intro patch_before) simp_all
      qed
    qed
    show ?thesis
      using True loop2 lvs' a b by (intro exI [of _ vs']) simp
  qed
  then obtain vs' where
    loop2: "(if format (getAttribute (vertexDesc m) PointSize) = Float1
           then for_each_vertex (scale_float fmul scale) n (int (0 + offQ)) (int S) vs
           else Some vs) = Some vs'"
    and lvs': "length vs' = length vs"
    and keep: "\<forall>i<n. take 12 (drop offP (?rec vs' i)) = take 12 (drop offP (?rec vs i))"
    and scaled: "format (getAttribute (vertexDesc m) PointSize) = Float1 \<longrightarrow>
        (\<forall>i<n. take 4 (drop offQ (?rec vs' i)) = ?h (take 4 (drop offQ (?rec vs i))))"
    by blast
  define m' where "m' = m\<lparr>vertices := vs', groups := gs\<rparr>"
  have run: "transform fadd fmul m translation scale = Some m'"
    unfolding transform_def uS uP uQ n_def [symmetric]
    using position by (simp only: loop1 groups loop2 Option.bind.simps m'_def) simp
  have vm': "vertices m' = vs'" by (simp add: m'_def)
  have positions: "read_vec3 (vertices m') (int (i * S + offP)) =
      map_option ?xf (read_vec3 (vertices m) (int (i * S + offP)))" if i: "i < n" for i
  proof -
    have fit: "i * S + S \<le> length (vertices m)" using i buffer by (rule record_fits)
    then have lr: "length (?rec (vertices m) i) = S" by simp
    have "take 12 (drop offP (?rec vs' i)) = take 12 (drop offP (?rec vs i))"
      using keep i by blast
    also have "?rec vs i = patch (?rec (vertices m) i) offP 12 ?g"
      using recs1 i by blast
    also have "take 12 (drop offP (patch (?rec (vertices m) i) offP 12 ?g)) =
        ?g (take 12 (drop offP (?rec (vertices m) i)))"
      using position_fits lr by (intro patch_window) simp_all
    finally have win: "take 12 (drop offP (?rec vs' i)) =
        vec3_bytes (?xf (bytes_vec3 (take 12 (drop offP (?rec (vertices m) i)))))" .
    have fit': "i * S + S \<le> length vs'" using fit lvs lvs' by simp
    have "read_vec3 vs' (int (i * S + offP)) =
        Some (?xf (bytes_vec3 (take 12 (drop offP (?rec (vertices m) i)))))"
      using refl win position_fits fit' by (rule read_vec3_of_record)
    then show ?thesis
      by (simp only: vm' read_vec3_old [OF position_fits fit] option.map)
  qed
  have sizes: "read_float (vertices m') (int (i * S + offQ)) =
      map_option (\<lambda>x. fmul x scale) (read_float (vertices m) (int (i * S + offQ)))"
    if ps: "format (getAttribute (vertexDesc m) PointSize) = Float1" and i: "i < n" for i
  proof -
    from ps point_size have q: "offQ + 4 \<le> S"
      and apart: "offQ + 4 \<le> offP \<or> offP + 12 \<le> offQ"
      by simp_all
    have fit: "i * S + S \<le> length (vertices m)" using i buffer by (rule record_fits)
    then have lr: "length (?rec (vertices m) i) = S" by simp
    have "take 4 (drop offQ (?rec vs' i)) = ?h (take 4 (drop offQ (?rec vs i)))"
      using scaled ps i by blast
    also have "?rec vs i = patch (?rec (vertices m) i) offP 12 ?g"
      using recs1 i by blast
    also have "take 4 (drop offQ (patch (?rec (vertices m) i) offP 12 ?g)) =
        take 4 (drop offQ (?rec (vertices m) i))"
      using apart
    proof
      assume "offQ + 4 \<le> offP"
      then show ?thesis using position_fits lr by (intro patch_before) simp_all
    next
      assume "offP + 12 \<le> offQ"
      then have "drop offQ (patch (?rec (vertices m) i) offP 12 ?g) =
          drop offQ (?rec (vertices m) i)"
        using position_fits lr by (intro patch_after) simp_all
      then show ?thesis by simp
    qed
    finally have win: "take 4 (drop offQ (?rec vs' i)) =
        f32_bytes (fmul (bytes_f32 (take 4 (drop offQ (?rec (vertices m) i)))) scale)" .
    have fit': "i * S + S \<le> length vs'" using fit lvs lvs' by simp
    have "read_float vs' (int (i * S + offQ)) =
        Some (fmul (bytes_f32 (take 4 (drop offQ (?rec (vertices m) i)))) scale)"
      using refl win q fit' by (rule read_float_of_record)
    then show ?thesis
      by (simp only: vm' read_float_old [OF q fit] option.map)
  qed
  have frame: "groups m' = gs" "vertexDesc m' = vertexDesc m" "nVertices m' = nVertices m"
    "name m' = name m"
    by (simp_all add: m'_def)
  show ?thesis
    using run positions sizes rel frame by (intro exI [of _ m']) simp
qed

text \<open>
  C7. For a mesh whose position is a \<open>Float3\<close> field inside the record, with a vertex
  buffer that holds \<^verbatim>\<open>nVertices\<close> records (and, when the layout has a \<open>Float1\<close> point
  size, with that field inside the record and apart from the position; and with override
  groups as described by \<open>override_well_formed\<close>), \<^verbatim>\<open>transform((tx, ty, tz), scale)\<close>
  returns, and afterwards: the position \<open>(x, y, z)\<close> of every vertex of the mesh's own
  buffer has become \<open>((x + tx) * scale, (y + ty) * scale, (z + tz) * scale)\<close>; every point
  size \<open>s\<close> has become \<open>s * scale\<close>; in every group with an override buffer the position
  and the next position of every override vertex have been replaced in the same way as
  the positions of the mesh, and groups without override buffer are unchanged; layout,
  vertex count and name of the mesh are unchanged. Float addition and multiplication are
  the parameters \<open>fadd\<close>, \<open>fmul\<close>.
\<close>

theorem transform_translates_and_scales:
  fixes m :: Mesh and tx ty tz scale :: f32
  defines "S \<equiv> unat (stride (vertexDesc m))"
    and "offP \<equiv> unat (offset (getAttribute (vertexDesc m) Position))"
    and "offQ \<equiv> unat (offset (getAttribute (vertexDesc m) PointSize))"
    and "n \<equiv> unat (nVertices m)"
  assumes position: "format (getAttribute (vertexDesc m) Position) = Float3"
    and position_fits: "offP + 12 \<le> S"
    and buffer: "n * S \<le> length (vertices m)"
    and point_size: "format (getAttribute (vertexDesc m) PointSize) = Float1 \<longrightarrow>
                     offQ + 4 \<le> S \<and> (offQ + 4 \<le> offP \<or> offP + 12 \<le> offQ)"
    and overrides: "\<forall>g\<in>set (groups m). override_well_formed g"
  shows "\<exists>m'. transform fadd fmul m (tx, ty, tz) scale = Some m' \<and>
     (\<forall>i<n. read_vec3 (vertices m') (int (i * S + offP)) =
             map_option
               (\<lambda>(x, y, z). (fmul (fadd x tx) scale, fmul (fadd y ty) scale,
                              fmul (fadd z tz) scale))
               (read_vec3 (vertices m) (int (i * S + offP)))) \<and>
     (format (getAttribute (vertexDesc m) PointSize) = Float1 \<longrightarrow>
        (\<forall>i<n. read_float (vertices m') (int (i * S + offQ)) =
                map_option (\<lambda>s. fmul s scale) (read_float (vertices m) (int (i * S + offQ))))) \<and>
     list_all2
       (override_transformed
          (\<lambda>(x, y, z). (fmul (fadd x tx) scale, fmul (fadd y ty) scale,
                         fmul (fadd z tz) scale)))
       (groups m) (groups m') \<and>
     vertexDesc m' = vertexDesc m \<and> nVertices m' = nVertices m \<and> name m' = name m"
proof -
  have formula: "translate_scale fadd fmul (tx, ty, tz) scale =
      (\<lambda>(x, y, z). (fmul (fadd x tx) scale, fmul (fadd y ty) scale, fmul (fadd z tz) scale))"
    by (rule ext) (simp add: translate_scale_def split: prod.splits)
  show ?thesis
    using transform_effect [OF position position_fits [unfolded S_def offP_def]
        buffer [unfolded S_def n_def] point_size [unfolded S_def offP_def offQ_def]
        overrides, of fadd fmul "(tx, ty, tz)" scale]
    unfolding formula S_def offP_def offQ_def n_def .
qed

lemma sprite_mesh_layout:
  "stride (vertexDesc sprite_mesh) = 16"
  "getAttribute (vertexDesc sprite_mesh) Position =
     \<lparr>semantic = Position, format = Float3, offset = 0\<rparr>"
  "getAttribute (vertexDesc sprite_mesh) PointSize =
     \<lparr>semantic = PointSize, format = Float1, offset = 12\<rparr>"
  "nVertices sprite_mesh = 2"
  "groups sprite_mesh = []"
  by (simp_all add: sprite_mesh_def layout_ok_def getAttribute_def VertexDescription_new_def
        buildSemanticMap_def)

lemma quad_mesh_wf: "\<forall>g\<in>set (groups quad_mesh). override_well_formed g"
  by (simp add: quad_mesh_def segment_quad_def override_well_formed_def PrimitiveGroup_new_def
        getAttribute_def VertexDescription_new_def buildSemanticMap_def Let_def)

lemma sprite_mesh_reads:
  "read_vec3 (vertices sprite_mesh) 0 = Some (0, 0, 0)"
  "read_vec3 (vertices sprite_mesh) 16 = Some (float_one, 0, 0)"
  "read_float (vertices sprite_mesh) 12 = Some float_one"
  "read_float (vertices sprite_mesh) 28 = Some float_one"
  by (simp_all add: sprite_mesh_def read_vec3_def read_float_def memread_def bytes_f32_def
        float_one_def)

lemma quad_mesh_reads:
  "vertexOverride (segment_quad\<lparr>prim := LineList, indices := [0, 1]\<rparr>) = Some vdata \<Longrightarrow>
     read_vec3 vdata 0 = Some (0, 0, 0) \<and> read_vec3 vdata 12 = Some (float_one, 0, 0) \<and>
     read_vec3 vdata 56 = Some (float_one, 0, 0) \<and> read_vec3 vdata 68 = Some (0, 0, 0)"
  by (auto simp: segment_quad_def PrimitiveGroup_new_def read_vec3_def read_float_def
        memread_def bytes_f32_def float_one_def)

lemma example_arithmetic:
  "example_fadd 0 float_one = float_one"
  "example_fadd float_one float_one = float_two"
  "example_fmul float_one float_two = float_two"
  "example_fmul float_two float_two = float_four"
  by (simp_all add: example_fadd_def example_fmul_def float_one_def float_two_def
        float_four_def)

theorem transform_translates_and_scales_witness:
  "(\<exists>m'. transform example_fadd example_fmul sprite_mesh (float_one, float_one, float_one)
            float_two = Some m' \<and>
      read_vec3 (vertices m') 0 = Some (float_two, float_two, float_two) \<and>
      read_vec3 (vertices m') 16 = Some (float_four, float_two, float_two) \<and>
      read_float (vertices m') 12 = Some float_two \<and>
      read_float (vertices m') 28 = Some float_two) \<and>
   (\<exists>m' g' vdata'.
      transform example_fadd example_fmul quad_mesh (float_one, float_one, float_one)
        float_two = Some m' \<and>
      groups m' = [g'] \<and> vertexOverride g' = Some vdata' \<and>
      read_vec3 vdata' 0 = Some (float_two, float_two, float_two) \<and>
      read_vec3 vdata' 12 = Some (float_four, float_two, float_two) \<and>
      read_vec3 vdata' 56 = Some (float_four, float_two, float_two) \<and>
      read_vec3 vdata' 68 = Some (float_two, float_two, float_two))"
proof
  have p1: "format (getAttribute (vertexDesc sprite_mesh) Position) = Float3"
    and p2: "unat (offset (getAttribute (vertexDesc sprite_mesh) Position)) + 12
             \<le> unat (stride (vertexDesc sprite_mesh))"
    and p3: "unat (nVertices sprite_mesh) * unat (stride (vertexDesc sprite_mesh))
             \<le> length (vertices sprite_mesh)"
    and p4: "format (getAttribute (vertexDesc sprite_mesh) PointSize) = Float1 \<longrightarrow>
        unat (offset (getAttribute (vertexDesc sprite_mesh) PointSize)) + 4
          \<le> unat (stride (vertexDesc sprite_mesh)) \<and>
        (unat (offset (getAttribute (vertexDesc sprite_mesh) PointSize)) + 4
           \<le> unat (offset (getAttribute (vertexDesc sprite_mesh) Position)) \<or>
         unat (offset (getAttribute (vertexDesc sprite_mesh) Position)) + 12
           \<le> unat (offset (getAttribute (vertexDesc sprite_mesh) PointSize)))"
    and p5: "\<forall>g\<in>set (groups sprite_mesh). override_well_formed g"
    by (simp_all add: sprite_mesh_layout) (simp add: sprite_mesh_def)
  from transform_translates_and_scales [where fadd = example_fadd and fmul = example_fmul
      and tx = float_one and ty = float_one and tz = float_one and scale = float_two,
      OF p1 p2 p3 p4 p5]
  obtain m' where run: "transform example_fadd example_fmul sprite_mesh
        (float_one, float_one, float_one) float_two = Some m'"
    and pos: "\<And>i. i < 2 \<Longrightarrow> read_vec3 (vertices m') (int (i * 16 + 0)) =
        map_option
          (\<lambda>(x, y, z). (example_fmul (example_fadd x float_one) float_two,
                         example_fmul (example_fadd y float_one) float_two,
                         example_fmul (example_fadd z float_one) float_two))
          (read_vec3 (vertices sprite_mesh) (int (i * 16 + 0)))"
    and ps: "\<And>i. i < 2 \<Longrightarrow> read_float (vertices m') (int (i * 16 + 12)) =
        map_option (\<lambda>s. example_fmul s float_two)
          (read_float (vertices sprite_mesh) (int (i * 16 + 12)))"
    unfolding sprite_mesh_layout by auto
  from pos [of 0] pos [of 1] ps [of 0] ps [of 1]
  have "read_vec3 (vertices m') 0 = Some (float_two, float_two, float_two) \<and>
      read_vec3 (vertices m') 16 = Some (float_four, float_two, float_two) \<and>
      read_float (vertices m') 12 = Some float_two \<and>
      read_float (vertices m') 28 = Some float_two"
    by (simp add: sprite_mesh_reads example_arithmetic)
  with run
  show "\<exists>m'. transform example_fadd example_fmul sprite_mesh (float_one, float_one, float_one)
            float_two = Some m' \<and>
      read_vec3 (vertices m') 0 = Some (float_two, float_two, float_two) \<and>
      read_vec3 (vertices m') 16 = Some (float_four, float_two, float_two) \<and>
      read_float (vertices m') 12 = Some float_two \<and>
      read_float (vertices m') 28 = Some float_two"
    by blast
next
  let ?g = "segment_quad\<lparr>prim := LineList, indices := [0, 1]\<rparr>"
  let ?xf = "\<lambda>(x, y, z). (example_fmul (example_fadd x float_one) float_two,
                         example_fmul (example_fadd y float_one) float_two,
                         example_fmul (example_fadd z float_one) float_two)"
  have q1: "format (getAttribute (vertexDesc quad_mesh) Position) = Float3"
    and q2: "unat (offset (getAttribute (vertexDesc quad_mesh) Position)) + 12
             \<le> unat (stride (vertexDesc quad_mesh))"
    and q3: "unat (nVertices quad_mesh) * unat (stride (vertexDesc quad_mesh))
             \<le> length (vertices quad_mesh)"
    and q4: "format (getAttribute (vertexDesc quad_mesh) PointSize) = Float1 \<longrightarrow>
        unat (offset (getAttribute (vertexDesc quad_mesh) PointSize)) + 4
          \<le> unat (stride (vertexDesc quad_mesh)) \<and>
        (unat (offset (getAttribute (vertexDesc quad_mesh) PointSize)) + 4
           \<le> unat (offset (getAttribute (vertexDesc quad_mesh) Position)) \<or>
         unat (offset (getAttribute (vertexDesc quad_mesh) Position)) + 12
           \<le> unat (offset (getAttribute (vertexDesc quad_mesh) PointSize)))"
    by (simp_all add: quad_mesh_def segment_mesh_def getAttribute_def VertexDescription_new_def
          buildSemanticMap_def VertexAttribute_default_def)
  from transform_translates_and_scales [where fadd = example_fadd and fmul = example_fmul
      and tx = float_one and ty = float_one and tz = float_one and scale = float_two,
      OF q1 q2 q3 q4 quad_mesh_wf]
  obtain m' where run: "transform example_fadd example_fmul quad_mesh
        (float_one, float_one, float_one) float_two = Some m'"
    and rel: "list_all2 (override_transformed ?xf) (groups quad_mesh) (groups m')"
    by blast
  have gq: "groups quad_mesh = [?g]" by (simp add: quad_mesh_def)
  from rel obtain g' where gs': "groups m' = [g']"
    and tr: "override_transformed ?xf ?g g'"
    unfolding gq by (auto simp: list_all2_Cons1)
  obtain vdata where ov: "vertexOverride ?g = Some vdata"
    by (simp add: segment_quad_def)
  have layout: "unat (stride (vertexDescriptionOverride ?g)) = 28"
    "unat (offset (getAttribute (vertexDescriptionOverride ?g) Position)) = 0"
    "unat (offset (getAttribute (vertexDescriptionOverride ?g) NextPosition)) = 12"
    "unat (vertexCountOverride ?g) = 4"
    by (simp_all add: segment_quad_def getAttribute_def VertexDescription_new_def
          buildSemanticMap_def)
  from tr ov obtain vdata' where g': "g' = ?g\<lparr>vertexOverride := Some vdata'\<rparr>"
    and reads: "\<And>j. j < 4 \<Longrightarrow>
        read_vec3 vdata' (int (j * 28 + 0)) =
          map_option ?xf (read_vec3 vdata (int (j * 28 + 0))) \<and>
        read_vec3 vdata' (int (j * 28 + 12)) =
          map_option ?xf (read_vec3 vdata (int (j * 28 + 12)))"
    unfolding override_transformed_def Let_def layout by auto
  from reads [of 0] reads [of 2] quad_mesh_reads [OF ov]
  have "read_vec3 vdata' 0 = Some (float_two, float_two, float_two) \<and>
      read_vec3 vdata' 12 = Some (float_four, float_two, float_two) \<and>
      read_vec3 vdata' 56 = Some (float_four, float_two, float_two) \<and>
      read_vec3 vdata' 68 = Some (float_two, float_two, float_two)"
    by (simp add: example_arithmetic)
  moreover have "vertexOverride g' = Some vdata'" by (simp add: g')
  ultimately
  show "\<exists>m' g' vdata'.
      transform example_fadd example_fmul quad_mesh (float_one, float_one, float_one)
        float_two = Some m' \<and>
      groups m' = [g'] \<and> vertexOverride g' = Some vdata' \<and>
      read_vec3 vdata' 0 = Some (float_two, float_two, float_two) \<and>
      read_vec3 vdata' 12 = Some (float_four, float_two, float_two) \<and>
      read_vec3 vdata' 56 = Some (float_four, float_two, float_two) \<and>
      read_vec3 vdata' 68 = Some (float_two, float_two, float_two)"
    using run gs' by blast
qed

end
